theory Spec2Isabelle
  imports Main "HOL-Library.Sublist"
begin

section \<open>Strings of the host language\<close>

text \<open>
  A string is a list of code units. The header block handed over by the transport is a
  byte string (every code unit below 256), so a \<^typ>\<open>char\<close> stands for one code unit
  and is read as Latin-1. The operations below are the library calls that
  \<^verbatim>\<open>parseHeaders\<close> and \<^verbatim>\<open>xhrRequest\<close> make: \<^verbatim>\<open>trim\<close>,
  \<^verbatim>\<open>toLowerCase\<close>, \<^verbatim>\<open>split\<close>, \<^verbatim>\<open>join\<close>, \<^verbatim>\<open>includes\<close>.
\<close>

definition CR :: char where
  "CR = CHR 0x0D"

definition LF :: char where
  "LF = CHR 0x0A"

text \<open>White space removed by \<^verbatim>\<open>trim\<close>, within the Latin-1 range: TAB, LF, VT, FF, CR,
  SPACE and NBSP.\<close>

definition isWhiteSpace :: "char \<Rightarrow> bool" where
  "isWhiteSpace c = (let n = (of_char c :: nat) in (9 \<le> n \<and> n \<le> 13) \<or> n = 32 \<or> n = 160)"

definition trim :: "string \<Rightarrow> string" where
  "trim s = rev (dropWhile isWhiteSpace (rev (dropWhile isWhiteSpace s)))"

text \<open>Upper-case letters of Latin-1 are A..Z and the block 192..222 without the
  multiplication sign 215; each has its lower-case partner 32 code units above.\<close>

definition isUpper :: "char \<Rightarrow> bool" where
  "isUpper c = (let n = (of_char c :: nat) in
     (65 \<le> n \<and> n \<le> 90) \<or> (192 \<le> n \<and> n \<le> 222 \<and> n \<noteq> 215))"

definition lowerChar :: "char \<Rightarrow> char" where
  "lowerChar c = (if isUpper c then char_of ((of_char c :: nat) + 32) else c)"

definition toLowerCase :: "string \<Rightarrow> string" where
  "toLowerCase s = map lowerChar s"

text \<open>\<^verbatim>\<open>s.includes(t)\<close>: does \<open>t\<close> occur in \<open>s\<close> as a contiguous substring.\<close>

fun includes_str :: "string \<Rightarrow> string \<Rightarrow> bool" where
  "includes_str [] t = (t = [])"
| "includes_str (c # cs) t = (take (length t) (c # cs) = t \<or> includes_str cs t)"

text \<open>
  \<^verbatim>\<open>s.split(sep)\<close> with a string separator: the text is scanned from the left, every
  occurrence of the separator found closes the current piece and the scan goes on behind
  it; the rest of the text is the last piece. An empty separator cuts the text into its
  code units. The accumulator \<open>acc\<close> is the piece being read.
\<close>

function splitFrom :: "string \<Rightarrow> string \<Rightarrow> string \<Rightarrow> string list" where
  "splitFrom sep acc [] = [acc]"
| "splitFrom sep acc (c # cs) =
     (if sep \<noteq> [] \<and> take (length sep) (c # cs) = sep
      then acc # splitFrom sep [] (drop (length sep) (c # cs))
      else splitFrom sep (acc @ [c]) cs)"
  by pat_completeness auto
termination
  by (relation "measure (\<lambda>(sep, acc, s). length s)") auto

definition split_str :: "string \<Rightarrow> string \<Rightarrow> string list" where
  "split_str s sep = (if sep = [] then map (\<lambda>c. [c]) s else splitFrom sep [] s)"

text \<open>\<^verbatim>\<open>parts.join(sep)\<close>.\<close>

fun join_str :: "string list \<Rightarrow> string \<Rightarrow> string" where
  "join_str [] sep = []"
| "join_str [p] sep = p"
| "join_str (p # q # ps) sep = p @ sep @ join_str (q # ps) sep"

text \<open>
  \<^verbatim>\<open>s.split(/[\r\n]+/)\<close>: the separator is a run, as long as possible, of the two
  line-break characters CR and LF (the character class of the source's pattern holds a
  line break written as such and the escape for LF).
\<close>

definition isLineBreak :: "char \<Rightarrow> bool" where
  "isLineBreak c = (c = CR \<or> c = LF)"

function splitLinesFrom :: "string \<Rightarrow> string \<Rightarrow> string list" where
  "splitLinesFrom acc [] = [acc]"
| "splitLinesFrom acc (c # cs) =
     (if isLineBreak c then acc # splitLinesFrom [] (dropWhile isLineBreak cs)
      else splitLinesFrom (acc @ [c]) cs)"
  by pat_completeness auto
termination
  by (relation "measure (\<lambda>(acc, s). length s)")
     (auto simp: length_dropWhile_le le_imp_less_Suc)

definition splitLines :: "string \<Rightarrow> string list" where
  "splitLines s = splitLinesFrom [] s"

section \<open>Values of the host language\<close>

text \<open>
  The values that pass through the request wrapper and the pool. Objects and functions
  are opaque: only their identity matters here. \<open>JError msg\<close> is the object made by
  \<^verbatim>\<open>new Error(msg)\<close> (or by the runtime, for a TypeError).
\<close>

datatype js_value =
    JUndefined
  | JNull
  | JBool bool
  | JNum int
  | JStr string
  | JObject nat
  | JFunction nat
  | JError string

fun typeOf :: "js_value \<Rightarrow> string" where
  "typeOf JUndefined = ''undefined''"
| "typeOf JNull = ''object''"
| "typeOf (JBool b) = ''boolean''"
| "typeOf (JNum n) = ''number''"
| "typeOf (JStr s) = ''string''"
| "typeOf (JObject a) = ''object''"
| "typeOf (JFunction a) = ''function''"
| "typeOf (JError m) = ''object''"

fun truthy :: "js_value \<Rightarrow> bool" where
  "truthy JUndefined = False"
| "truthy JNull = False"
| "truthy (JBool b) = b"
| "truthy (JNum n) = (n \<noteq> 0)"
| "truthy (JStr s) = (s \<noteq> [])"
| "truthy (JObject a) = True"
| "truthy (JFunction a) = True"
| "truthy (JError m) = True"

section \<open>parseHeaders\<close>

text \<open>
  The result object is a map from header names to values; assigning to a name that is
  already there overwrites it. The object is a plain one, so an assignment to the name
  \<^verbatim>\<open>__proto__\<close> reaches the setter of its prototype, which drops a string: nothing
  is stored under that name. \<^verbatim>\<open>parts.shift()\<close> on an empty array gives
  \<^verbatim>\<open>undefined\<close>, and the call of \<^verbatim>\<open>toLowerCase\<close> on it raises a TypeError:
  that is the \<open>Inl\<close> branch.
\<close>

type_synonym header_map = "string \<rightharpoonup> string"

definition headerLine :: "string \<Rightarrow> js_value + (string \<times> string)" where
  "headerLine line =
     (case split_str line '': '' of
        [] \<Rightarrow> Inl (JError ''TypeError'')
      | key # parts \<Rightarrow> Inr (toLowerCase key, join_str parts '': ''))"

fun forEachLine :: "string list \<Rightarrow> header_map \<Rightarrow> js_value + header_map" where
  "forEachLine [] headers = Inr headers"
| "forEachLine (line # lines) headers =
     (case headerLine line of
        Inl e \<Rightarrow> Inl e
      | Inr (k, v) \<Rightarrow>
          forEachLine lines (if k = ''__proto__'' then headers else headers(k \<mapsto> v)))"

text \<open>The argument is \<open>None\<close> for a missing block (\<^verbatim>\<open>null\<close> or \<^verbatim>\<open>undefined\<close>).\<close>

definition parseHeaders :: "string option \<Rightarrow> js_value + header_map" where
  "parseHeaders headerStr =
     (case headerStr of
        None \<Rightarrow> Inr Map.empty
      | Some s \<Rightarrow> if s = [] then Inr Map.empty else forEachLine (splitLines (trim s)) Map.empty)"

text \<open>
  The splitting of a line as the description of the parser words it: the line is cut at
  the first occurrence of the separator; what is in front of it is the name, all that is
  behind it, later occurrences of the separator included, is the value. \<open>None\<close> when
  the separator does not occur.
\<close>

fun cutAtFirst :: "string \<Rightarrow> string \<Rightarrow> (string \<times> string) option" where
  "cutAtFirst sep [] = None"
| "cutAtFirst sep (c # cs) =
     (if take (length sep) (c # cs) = sep then Some ([], drop (length sep) (c # cs))
      else map_option (\<lambda>(name, val). (c # name, val)) (cutAtFirst sep cs))"

section \<open>xhrRequest\<close>

subsection \<open>The transport and the platform\<close>

text \<open>
  The transport object is not part of the program: it is taken as it shows itself to
  the wrapper. The wrapper calls it during the setup (\<open>xhr_call\<close>), and the transport
  calls the registered handlers back (\<open>xhr_event\<close>). At a change of its ready state
  the handler reads the properties collected in \<open>xhr_snapshot\<close>.
  \<open>xhr_responseType\<close> is the property \<^verbatim>\<open>responseType\<close> of the transport, as the
  setup left it. \<open>responseText\<close> is the text received so far; the transport hands it
  out only in a text mode (\<open>getResponseText\<close> below). \<open>allResponseHeaders\<close> is \<open>None\<close> when \<^verbatim>\<open>getAllResponseHeaders()\<close> answers
  \<^verbatim>\<open>null\<close> (a transport without that method makes the wrapper use the empty
  string, which is \<open>Some []\<close>).
\<close>

datatype xhr_call =
    Open string string bool
  | SetWithCredentials bool
  | SetTimeout int
  | SetResponseType string
  | SetRequestHeader string string
  | Send js_value

record xhr_snapshot =
  readyState :: nat
  status :: int
  statusText :: string
  responseText :: string
  response :: js_value
  xhr_responseType :: string
  allResponseHeaders :: "string option"

text \<open>
  The getter of \<^verbatim>\<open>xhr.responseText\<close>: it returns the text when the response type of
  the transport is the empty string or \<^verbatim>\<open>text\<close>, and throws an InvalidStateError for
  every other response type.
\<close>

definition getResponseText :: "xhr_snapshot \<Rightarrow> js_value + string" where
  "getResponseText x =
     (if xhr_responseType x = [] \<or> xhr_responseType x = ''text'' then Inr (responseText x)
      else Inl (JError ''InvalidStateError''))"

datatype xhr_event =
    ReadyStateChange xhr_snapshot
  | OnError
  | OnTimeout
  | OnAbort

text \<open>
  What the library and the transport may do when called: \<open>raises c\<close> is the exception a
  call on the transport throws, if any; \<^verbatim>\<open>JSON.stringify\<close> and \<^verbatim>\<open>JSON.parse\<close>
  either throw (\<open>Inl\<close>) or return (\<open>Inr\<close>).
\<close>

record platform =
  raises :: "xhr_call \<Rightarrow> js_value option"
  JSON_stringify :: "js_value \<Rightarrow> js_value + js_value"
  JSON_parse :: "string \<Rightarrow> js_value + js_value"

subsection \<open>Options, envelopes and the state of one request\<close>

text \<open>
  A chunk callback is a function of the host language; calling it either returns or
  throws. What it does may depend on the chunks it has seen before, so it is given them:
  \<open>cb earlier chunk\<close> is \<open>Some e\<close> when the call throws \<open>e\<close>. \<open>onChunk = None\<close>
  stands for every value that is not a function. An option left out is \<open>None\<close>
  (\<open>JUndefined\<close> for the body) and gets its default. The field \<open>httpMethod\<close> is the
  option \<^verbatim>\<open>method\<close>; \<open>headers\<close> lists the properties of the headers object in their
  order, each name once.
\<close>

type_synonym chunk_callback = "string list \<Rightarrow> string \<Rightarrow> js_value option"

record request_options =
  httpMethod :: "string option"
  url :: string
  headers :: "(string \<times> string) list option"
  body :: js_value
  timeout :: "int option"
  withCredentials :: js_value
  responseType :: "string option"
  onProgress :: js_value
  onChunk :: "chunk_callback option"

datatype response_envelope = ResponseEnvelope int header_map js_value nat

datatype rejection =
    FailureEnvelope int string string header_map
  | ErrorValue js_value

datatype settlement = Pending | Resolved response_envelope | Rejected rejection

text \<open>
  The state of one request: the transport handle \<open>xhr\<close>, the calls made on it so far,
  whether the handlers are registered (\<open>listening\<close>), the state of the promise, the
  variable \<open>lastIndex\<close> of the closure, the property \<^verbatim>\<open>xhr.onprogress\<close>, and two
  logs kept for the proofs: the arguments of the calls of the chunk callback, in order
  (\<open>delivered\<close>), and the exceptions of the callback that were caught and dropped
  (\<open>swallowed\<close>).
\<close>

record request =
  xhr :: nat
  calls :: "xhr_call list"
  listening :: bool
  promise :: settlement
  lastIndex :: nat
  xhr_onprogress :: js_value
  delivered :: "string list"
  swallowed :: "js_value list"

text \<open>\<^verbatim>\<open>resolve\<close> and \<^verbatim>\<open>reject\<close> of a promise: only the first call settles it.\<close>

definition settle :: "settlement \<Rightarrow> request \<Rightarrow> request" where
  "settle v st = (if promise st = Pending then st\<lparr>promise := v\<rparr> else st)"

subsection \<open>Setup\<close>

definition orDefault :: "'a option \<Rightarrow> 'a \<Rightarrow> 'a" where
  "orDefault v d = (case v of None \<Rightarrow> d | Some x \<Rightarrow> x)"

text \<open>\<^verbatim>\<open>headers['Content-Type'] || headers['content-type'] || ''\<close>, lower-cased.\<close>

definition contentTypeOf :: "(string \<times> string) list \<Rightarrow> string" where
  "contentTypeOf hs =
     toLowerCase
       (case map_of hs ''Content-Type'' of
          Some v \<Rightarrow> if v \<noteq> [] then v else orDefault (map_of hs ''content-type'') []
        | None \<Rightarrow> orDefault (map_of hs ''content-type'') [])"

text \<open>The payload given to \<^verbatim>\<open>send\<close>; \<open>Inl\<close> when \<^verbatim>\<open>JSON.stringify\<close> throws.\<close>

definition payloadOf :: "platform \<Rightarrow> (string \<times> string) list \<Rightarrow> js_value \<Rightarrow> js_value + js_value" where
  "payloadOf pf hs b =
     (if b \<noteq> JNull \<and> b \<noteq> JUndefined \<and> typeOf b = ''object''
         \<and> includes_str (contentTypeOf hs) ''application/json''
      then JSON_stringify pf b
      else Inr b)"

text \<open>The calls on the transport are made in order until one throws; the result is the
  calls made and the exception, if any.\<close>

fun perform :: "platform \<Rightarrow> xhr_call list \<Rightarrow> xhr_call list \<times> js_value option" where
  "perform pf [] = ([], None)"
| "perform pf (c # cs) =
     (case raises pf c of
        Some e \<Rightarrow> ([c], Some e)
      | None \<Rightarrow> (case perform pf cs of (made, r) \<Rightarrow> (c # made, r)))"

definition setupCalls :: "request_options \<Rightarrow> xhr_call list" where
  "setupCalls opts =
     [Open (orDefault (httpMethod opts) ''GET'') (url opts) True,
      SetWithCredentials (truthy (withCredentials opts)),
      SetTimeout (orDefault (timeout opts) 30000)]
     @ (let rt = orDefault (responseType opts) ''json''
        in if rt \<noteq> [] \<and> rt \<noteq> ''json'' then [SetResponseType rt] else [])
     @ map (\<lambda>(k, v). SetRequestHeader k v) (orDefault (headers opts) [])"

text \<open>
  \<^verbatim>\<open>xhrRequest(opts)\<close>, on the fresh transport handle \<open>h\<close>. An exception anywhere
  in the setup rejects the promise. The handlers are registered after the request
  headers are set and before the payload is computed.
\<close>

definition xhrRequest :: "platform \<Rightarrow> nat \<Rightarrow> request_options \<Rightarrow> request" where
  "xhrRequest pf h opts =
     (let st = \<lparr>xhr = h, calls = [], listening = False, promise = Pending, lastIndex = 0,
                xhr_onprogress = JNull, delivered = [], swallowed = []\<rparr>
      in case perform pf (setupCalls opts) of
           (made, Some e) \<Rightarrow> st\<lparr>calls := made, promise := Rejected (ErrorValue e)\<rparr>
         | (made, None) \<Rightarrow>
             (let st1 = st\<lparr>calls := made, listening := True,
                    xhr_onprogress := (if truthy (onProgress opts) then onProgress opts else JNull)\<rparr>
              in case payloadOf pf (orDefault (headers opts) [])
                        (if body opts = JUndefined then JNull else body opts) of
                   Inl e \<Rightarrow> st1\<lparr>promise := Rejected (ErrorValue e)\<rparr>
                 | Inr payload \<Rightarrow>
                     (case raises pf (Send payload) of
                        Some e \<Rightarrow> st1\<lparr>calls := made @ [Send payload], promise := Rejected (ErrorValue e)\<rparr>
                      | None \<Rightarrow> st1\<lparr>calls := made @ [Send payload]\<rparr>)))"

subsection \<open>The handlers\<close>

text \<open>
  The body of a successful response, decoded as the option \<open>responseType\<close> asks. The
  three reads are inside a \<^verbatim>\<open>try\<close>; its \<^verbatim>\<open>catch\<close> reads the text again, so an
  exception of \<^verbatim>\<open>JSON.parse\<close> ends in the raw text, and an exception of the getter of
  the text is thrown a second time and leaves the handler (\<open>Inl\<close>).
\<close>

definition parsedBody :: "platform \<Rightarrow> request_options \<Rightarrow> xhr_snapshot \<Rightarrow> js_value + js_value" where
  "parsedBody pf opts x =
     (if xhr_responseType x = ''json'' then Inr (response x)
      else if orDefault (responseType opts) ''json'' = ''json''
      then (case getResponseText x of
              Inl e \<Rightarrow> map_sum id JStr (getResponseText x)
            | Inr t \<Rightarrow>
                (case JSON_parse pf (if t \<noteq> [] then t else ''null'') of
                   Inr v \<Rightarrow> Inr v
                 | Inl parseErr \<Rightarrow> map_sum id JStr (getResponseText x)))
      else if truthy (response x) then Inr (response x)
      else (case getResponseText x of
              Inl e \<Rightarrow> map_sum id JStr (getResponseText x)
            | Inr t \<Rightarrow> Inr (JStr t)))"

text \<open>
  The chunk step of the handler: with the ready state 3 and a callback registered, the
  text behind \<open>lastIndex\<close> is cut off, \<open>lastIndex\<close> moves to the end of the text, and
  the callback is called inside a \<^verbatim>\<open>try\<close> whose \<^verbatim>\<open>catch\<close> is empty. The step is
  that of a partial-data notification that carries a text, as a transport in a text mode
  sends it.
\<close>

definition chunkStep :: "request_options \<Rightarrow> request \<Rightarrow> xhr_snapshot \<Rightarrow> request" where
  "chunkStep opts st x =
     (case onChunk opts of
        None \<Rightarrow> st
      | Some cb \<Rightarrow>
          if readyState x = 3
          then (let chunk = drop (lastIndex st) (responseText x);
                    st1 = st\<lparr>lastIndex := length (responseText x),
                             delivered := delivered st @ [chunk]\<rparr>
                in case cb (delivered st) chunk of
                     None \<Rightarrow> st1
                   | Some e \<Rightarrow> st1\<lparr>swallowed := swallowed st1 @ [e]\<rparr>)
          else st)"

text \<open>
  The completion step: \<open>Inl\<close> is an exception that leaves the handler. The envelope of
  a failure is built before \<^verbatim>\<open>reject\<close> is called, and the read of the text for it
  is outside any \<^verbatim>\<open>try\<close>: when the getter throws, the promise is not settled.
\<close>

definition doneStep :: "platform \<Rightarrow> request_options \<Rightarrow> request \<Rightarrow> xhr_snapshot \<Rightarrow> js_value + request" where
  "doneStep pf opts st x =
     (if readyState x = 4
      then (case parseHeaders (allResponseHeaders x) of
              Inl e \<Rightarrow> Inl e
            | Inr parsedHeaders \<Rightarrow>
                if 200 \<le> status x \<and> status x < 300
                then (case parsedBody pf opts x of
                        Inl e \<Rightarrow> Inl e
                      | Inr b \<Rightarrow>
                          Inr (settle (Resolved (ResponseEnvelope (status x) parsedHeaders
                                                   b (xhr st))) st))
                else (case getResponseText x of
                        Inl e \<Rightarrow> Inl e
                      | Inr t \<Rightarrow>
                          Inr (settle (Rejected (FailureEnvelope (status x) (statusText x)
                                                   t parsedHeaders)) st)))
      else Inr st)"

definition onreadystatechange :: "platform \<Rightarrow> request_options \<Rightarrow> request \<Rightarrow> xhr_snapshot \<Rightarrow> js_value + request" where
  "onreadystatechange pf opts st x = doneStep pf opts (chunkStep opts st x) x"

definition onerror :: "request \<Rightarrow> request" where
  "onerror st = settle (Rejected (ErrorValue (JError ''Network error''))) st"

definition ontimeout :: "request \<Rightarrow> request" where
  "ontimeout st = settle (Rejected (ErrorValue (JError ''Timeout''))) st"

definition onabort :: "request \<Rightarrow> request" where
  "onabort st = settle (Rejected (ErrorValue (JError ''Aborted''))) st"

text \<open>
  One notification of the transport. Without registered handlers nothing happens. An
  exception that leaves a handler is reported by the event loop and the request stays
  as the handler left it; the completion step throws before it changes anything.
\<close>

definition notify :: "platform \<Rightarrow> request_options \<Rightarrow> request \<Rightarrow> xhr_event \<Rightarrow> request" where
  "notify pf opts st ev =
     (if \<not> listening st then st
      else case ev of
             ReadyStateChange x \<Rightarrow>
               (case onreadystatechange pf opts st x of
                  Inl e \<Rightarrow> chunkStep opts st x
                | Inr st' \<Rightarrow> st')
           | OnError \<Rightarrow> onerror st
           | OnTimeout \<Rightarrow> ontimeout st
           | OnAbort \<Rightarrow> onabort st)"

definition notifyAll :: "platform \<Rightarrow> request_options \<Rightarrow> request \<Rightarrow> xhr_event list \<Rightarrow> request" where
  "notifyAll pf opts st evs = foldl (notify pf opts) st evs"

subsection \<open>Cumulative texts and their increments\<close>



subsection \<open>A platform and options to run examples on\<close>

text \<open>A transport that accepts every call, and a JSON library that knows two texts.\<close>

definition samplePlatform :: platform where
  "samplePlatform =
     \<lparr>raises = (\<lambda>c. None),
      JSON_stringify = (\<lambda>v. Inr (JStr ''{}'')),
      JSON_parse = (\<lambda>s. if s = ''null'' then Inr JNull
                         else if s = ''{}'' then Inr (JObject 0)
                         else Inl (JError ''SyntaxError''))\<rparr>"

definition sampleOptions :: request_options where
  "sampleOptions =
     \<lparr>httpMethod = None, url = ''/api/products/123'', headers = Some [(''Accept'', ''application/json'')],
      body = JUndefined, timeout = None, withCredentials = JUndefined, responseType = None,
      onProgress = JUndefined, onChunk = None\<rparr>"



section \<open>XHRPool\<close>

text \<open>
  What a task factory does when the pool calls it: it throws, or it returns the pair of
  a promise and a transport handle. A factory that returns something else makes the
  destructuring or the call of \<^verbatim>\<open>then\<close> throw a TypeError inside the same
  \<^verbatim>\<open>try\<close>, so it is a factory that throws. Factories do not call the pool.
\<close>

datatype factory = Throws js_value | Returns nat

text \<open>
  A job of the queue. The continuations \<^verbatim>\<open>resolve\<close> and \<^verbatim>\<open>reject\<close> of the
  promise that \<^verbatim>\<open>enqueue\<close> returned are named by the ticket of the submission: the
  position of the call of \<^verbatim>\<open>enqueue\<close> among all such calls on the pool.
\<close>

record pool_job =
  ticket :: nat
  createTaskFn :: factory

datatype completion = ResolveWith js_value nat | RejectWith js_value

text \<open>
  The fields of the class are \<open>concurrency\<close>, \<open>active\<close> and \<open>queue\<close>. \<open>running\<close>
  holds the tasks whose promise carries the handlers of the pool and has not settled
  yet, with their transport handles. \<open>tickets\<close> counts the submissions. Two logs are kept
  for the proofs: \<open>admitted\<close> has, for every job taken off the queue, its ticket and
  the value of \<open>active\<close> that the guard read at that dispatch attempt; \<open>settled\<close> has
  the calls of the continuations.
\<close>

record pool =
  concurrency :: int
  active :: int
  queue :: "pool_job list"
  running :: "(nat \<times> nat) list"
  tickets :: nat
  admitted :: "(nat \<times> int) list"
  settled :: "(nat \<times> completion) list"

text \<open>The constructor; the limit left out is 4. There is no check of the limit.\<close>

definition XHRPool_new :: "int option \<Rightarrow> pool" where
  "XHRPool_new c =
     \<lparr>concurrency = (case c of None \<Rightarrow> 4 | Some n \<Rightarrow> n), active = 0, queue = [],
      running = [], tickets = 0, admitted = [], settled = []\<rparr>"

text \<open>
  \<^verbatim>\<open>_next()\<close>. The handlers given to \<^verbatim>\<open>then\<close> and \<^verbatim>\<open>catch\<close> run later, when the
  promise of the task settles (\<open>pool_event\<close> below); the \<^verbatim>\<open>catch\<close> of the
  \<^verbatim>\<open>try\<close> runs at once and calls \<^verbatim>\<open>_next()\<close> again.
\<close>

function XHRPool_next :: "pool \<Rightarrow> pool" where
  "XHRPool_next p =
     (if active p \<ge> concurrency p then p
      else case queue p of
             [] \<Rightarrow> p
           | job # rest \<Rightarrow>
               (case createTaskFn job of
                  Returns h \<Rightarrow>
                    p\<lparr>queue := rest, active := active p + 1,
                      admitted := admitted p @ [(ticket job, active p)],
                      running := running p @ [(ticket job, h)]\<rparr>
                | Throws err \<Rightarrow>
                    XHRPool_next
                      (p\<lparr>queue := rest, active := active p + 1 - 1,
                         admitted := admitted p @ [(ticket job, active p)],
                         settled := settled p @ [(ticket job, RejectWith err)]\<rparr>)))"
  by pat_completeness auto
termination
  by (relation "measure (\<lambda>p. length (queue p))") auto

definition enqueue :: "pool \<Rightarrow> factory \<Rightarrow> pool" where
  "enqueue p createTask =
     XHRPool_next
       (p\<lparr>queue := queue p @ [\<lparr>ticket = tickets p, createTaskFn = createTask\<rparr>],
          tickets := tickets p + 1\<rparr>)"

text \<open>
  The events of a pool: a submission, and the settling of the promise of a running task,
  which runs the handler given to \<^verbatim>\<open>then\<close> or the one given to \<^verbatim>\<open>catch\<close>. A
  promise settles once, and only the promise of a task that was started can settle: an
  event for a ticket that is not running changes nothing.
\<close>

datatype pool_event =
    Enqueue factory
  | TaskResolves nat js_value
  | TaskRejects nat js_value

definition onFulfilled :: "pool \<Rightarrow> nat \<Rightarrow> js_value \<Rightarrow> pool" where
  "onFulfilled p k result =
     (case map_of (running p) k of
        None \<Rightarrow> p
      | Some h \<Rightarrow>
          XHRPool_next
            (p\<lparr>active := active p - 1,
               running := filter (\<lambda>(t, _). t \<noteq> k) (running p),
               settled := settled p @ [(k, ResolveWith result h)]\<rparr>))"

definition onRejected :: "pool \<Rightarrow> nat \<Rightarrow> js_value \<Rightarrow> pool" where
  "onRejected p k err =
     (case map_of (running p) k of
        None \<Rightarrow> p
      | Some h \<Rightarrow>
          XHRPool_next
            (p\<lparr>active := active p - 1,
               running := filter (\<lambda>(t, _). t \<noteq> k) (running p),
               settled := settled p @ [(k, RejectWith err)]\<rparr>))"

fun pool_step :: "pool \<Rightarrow> pool_event \<Rightarrow> pool" where
  "pool_step p (Enqueue createTask) = enqueue p createTask"
| "pool_step p (TaskResolves k result) = onFulfilled p k result"
| "pool_step p (TaskRejects k err) = onRejected p k err"

definition pool_run :: "pool \<Rightarrow> pool_event list \<Rightarrow> pool" where
  "pool_run p evs = foldl pool_step p evs"

text \<open>The tickets of the jobs whose factory has been called, in the order of the calls.\<close>

definition invoked :: "pool \<Rightarrow> nat list" where
  "invoked p = map fst (admitted p)"

text \<open>
  The invariant of a pool between two events: \<open>active\<close> counts the running tasks; every
  job left the queue at a dispatch attempt whose guard read a count below the limit; the
  tickets of the jobs admitted so far, followed by those still queued, are the tickets
  handed out, in order; the running tasks are distinct admitted jobs.
\<close>

definition pool_inv :: "pool \<Rightarrow> bool" where
  "pool_inv p \<longleftrightarrow>
     active p = int (length (running p)) \<and>
     (\<forall>(k, a) \<in> set (admitted p). 0 \<le> a \<and> a < concurrency p) \<and>
     map fst (admitted p) @ map ticket (queue p) = [0..<tickets p] \<and>
     set (map fst (running p)) \<subseteq> set (map fst (admitted p)) \<and>
     distinct (map fst (running p))"

text \<open>No job waits while a slot is free.\<close>

definition pool_idle :: "pool \<Rightarrow> bool" where
  "pool_idle p \<longleftrightarrow> (queue p \<noteq> [] \<longrightarrow> concurrency p \<le> active p)"

text \<open>The factories that a sequence of events submits, in order.\<close>

fun submitted :: "pool_event list \<Rightarrow> factory list" where
  "submitted [] = []"
| "submitted (Enqueue f # evs) = f # submitted evs"
| "submitted (e # evs) = submitted evs"

section \<open>Properties of parseHeaders\<close>

lemma splitFrom_not_Nil: "splitFrom sep acc s \<noteq> []"
  by (induction sep acc s rule: splitFrom.induct) auto

lemma lowerChar_idem: "lowerChar (lowerChar c) = lowerChar c"
  by (auto simp: lowerChar_def isUpper_def Let_def)

lemma toLowerCase_idem: "toLowerCase (toLowerCase s) = toLowerCase s"
  by (simp add: toLowerCase_def lowerChar_idem)

lemma headerLine_total: "\<exists>k v. headerLine line = Inr (toLowerCase k, v)"
  using splitFrom_not_Nil[of "'': ''" "[]" line]
  by (auto simp: headerLine_def split_str_def split: list.splits)

lemma forEachLine_total:
  "\<exists>hs. forEachLine lines m = Inr hs \<and> (\<forall>k \<in> dom hs. k \<in> dom m \<or> toLowerCase k = k)"
proof (induction lines arbitrary: m)
  case Nil
  then show ?case by simp
next
  case (Cons line lines)
  obtain k v where kv: "headerLine line = Inr (toLowerCase k, v)"
    using headerLine_total by blast
  let ?m = "if toLowerCase k = ''__proto__'' then m else m(toLowerCase k \<mapsto> v)"
  obtain hs where hs: "forEachLine lines ?m = Inr hs"
    "\<forall>k' \<in> dom hs. k' \<in> dom ?m \<or> toLowerCase k' = k'"
    using Cons.IH by blast
  have "\<forall>k' \<in> dom hs. k' \<in> dom m \<or> toLowerCase k' = k'"
  proof
    fix k' assume "k' \<in> dom hs"
    then have "k' \<in> dom ?m \<or> toLowerCase k' = k'"
      using hs(2) by blast
    then show "k' \<in> dom m \<or> toLowerCase k' = k'"
      using toLowerCase_idem[of k] by (auto split: if_splits)
  qed
  then show ?case using kv hs(1) by simp
qed

lemma parseHeaders_proto:
  "parseHeaders (Some (''__proto__: x'' @ [CR, LF] @ ''X-Id: 7'' @ [CR, LF])) = Inr [''x-id'' \<mapsto> ''7'']"
proof -
  have a: "splitLines (trim (''__proto__: x'' @ [CR, LF] @ ''X-Id: 7'' @ [CR, LF]))
      = [''__proto__: x'', ''X-Id: 7'']"
    by code_simp
  have b: "headerLine ''__proto__: x'' = Inr (''__proto__'', ''x'')"
    "headerLine ''X-Id: 7'' = Inr (''x-id'', ''7'')"
    by code_simp+
  have c: "(''__proto__: x'' @ [CR, LF] @ ''X-Id: 7'' @ [CR, LF] = []) = False" by simp
  show ?thesis
    by (simp only: parseHeaders_def option.case c if_False a) (simp add: b)
qed

lemma parseHeaders_total:
  "\<exists>hs. parseHeaders s = Inr hs \<and> (\<forall>k \<in> dom hs. toLowerCase k = k)"
proof (cases s)
  case None
  then show ?thesis by (simp add: parseHeaders_def)
next
  case (Some t)
  show ?thesis
  proof (cases "t = []")
    case True
    then show ?thesis using Some by (simp add: parseHeaders_def)
  next
    case False
    then show ?thesis
      using Some forEachLine_total[of "splitLines (trim t)" Map.empty]
      by (auto simp: parseHeaders_def)
  qed
qed

text \<open>
  A line is split as the description has it: at the first occurrence of the separator,
  with the later occurrences left in the value; a line without the separator is a name
  with an empty value.
\<close>

lemma join_str_Cons: "ps \<noteq> [] \<Longrightarrow> join_str (p # ps) sep = p @ sep @ join_str ps sep"
  by (cases ps) simp_all

lemma join_splitFrom: "sep \<noteq> [] \<Longrightarrow> join_str (splitFrom sep acc s) sep = acc @ s"
proof (induction sep acc s rule: splitFrom.induct)
  case (1 sep acc)
  then show ?case by simp
next
  case (2 sep acc c cs)
  show ?case
  proof (cases "take (length sep) (c # cs) = sep")
    case True
    have "join_str (splitFrom sep [] (drop (length sep) (c # cs))) sep = drop (length sep) (c # cs)"
      using "2.IH"(1) "2.prems" True by simp
    moreover have "sep @ drop (length sep) (c # cs) = c # cs"
      using True append_take_drop_id[of "length sep" "c # cs"] by simp
    ultimately show ?thesis
      using True "2.prems" by (simp add: join_str_Cons splitFrom_not_Nil)
  next
    case False
    then show ?thesis using "2.IH"(2) "2.prems" by simp
  qed
qed

lemma splitFrom_no_separator:
  "sep \<noteq> [] \<Longrightarrow> cutAtFirst sep s = None \<Longrightarrow> splitFrom sep acc s = [acc @ s]"
  by (induction s arbitrary: acc) (auto split: if_splits)

lemma splitFrom_first_separator:
  "sep \<noteq> [] \<Longrightarrow> cutAtFirst sep s = Some (name, val) \<Longrightarrow>
   \<exists>ps. splitFrom sep acc s = (acc @ name) # ps \<and> join_str ps sep = val"
proof (induction s arbitrary: acc name)
  case Nil
  then show ?case by simp
next
  case (Cons c cs)
  show ?case
  proof (cases "take (length sep) (c # cs) = sep")
    case True
    then have "name = []" "val = drop (length sep) (c # cs)" using Cons.prems by simp_all
    then show ?thesis
      using True Cons.prems(1) join_splitFrom[of sep "[]" "drop (length sep) (c # cs)"] by simp
  next
    case False
    then obtain name' where n: "cutAtFirst sep cs = Some (name', val)" "name = c # name'"
      using Cons.prems by auto
    from Cons.IH[OF Cons.prems(1) n(1), of "acc @ [c]"] show ?thesis
      using False n(2) by simp
  qed
qed

lemma headerLine_cut:
  "headerLine line =
     Inr (case cutAtFirst '': '' line of
            None \<Rightarrow> (toLowerCase line, [])
          | Some (name, val) \<Rightarrow> (toLowerCase name, val))"
proof (cases "cutAtFirst '': '' line")
  case None
  then show ?thesis
    using splitFrom_no_separator[of "'': ''" line "[]"]
    by (simp add: headerLine_def split_str_def)
next
  case (Some nv)
  obtain name val where nv: "nv = (name, val)" by (cases nv)
  obtain ps where "splitFrom '': '' [] line = name # ps" "join_str ps '': '' = val"
    using splitFrom_first_separator[of "'': ''" line name val "[]"] Some nv by auto
  then show ?thesis using Some nv by (simp add: headerLine_def split_str_def)
qed

lemma cutAtFirst_Some:
  "cutAtFirst sep s = Some (name, val) \<Longrightarrow>
   s = name @ sep @ val \<and> (\<forall>k < length name. take (length sep) (drop k s) \<noteq> sep)"
proof (induction s arbitrary: name)
  case Nil
  then show ?case by simp
next
  case (Cons c cs)
  show ?case
  proof (cases "take (length sep) (c # cs) = sep")
    case True
    then have "name = []" "val = drop (length sep) (c # cs)" using Cons.prems by simp_all
    then show ?thesis using True append_take_drop_id[of "length sep" "c # cs"] by simp
  next
    case False
    then obtain name' where n: "cutAtFirst sep cs = Some (name', val)" "name = c # name'"
      using Cons.prems by auto
    from Cons.IH[OF n(1)] have ih: "cs = name' @ sep @ val"
      "\<forall>k < length name'. take (length sep) (drop k cs) \<noteq> sep" by blast+
    have "take (length sep) (drop k (c # cs)) \<noteq> sep" if "k < length name" for k
      using that False ih(2) n(2) by (cases k) simp_all
    then show ?thesis using ih(1) n(2) by simp
  qed
qed

lemma cutAtFirst_None:
  "cutAtFirst sep s = None \<Longrightarrow> k < length s \<Longrightarrow> take (length sep) (drop k s) \<noteq> sep"
proof (induction s arbitrary: k)
  case Nil
  then show ?case by simp
next
  case (Cons c cs)
  then show ?case by (cases k) (auto split: if_splits)
qed

lemma parseHeaders_example:
  "parseHeaders (Some (''Content-Type: application/json'' @ [CR, LF] @ ''X-Id: a: b'' @ [CR, LF]))
     = Inr [''content-type'' \<mapsto> ''application/json'', ''x-id'' \<mapsto> ''a: b'']"
proof -
  have a: "splitLines (trim (''Content-Type: application/json'' @ [CR, LF] @ ''X-Id: a: b'' @ [CR, LF]))
      = [''Content-Type: application/json'', ''X-Id: a: b'']"
    by code_simp
  have b: "headerLine ''Content-Type: application/json'' = Inr (''content-type'', ''application/json'')"
    "headerLine ''X-Id: a: b'' = Inr (''x-id'', ''a: b'')"
    by code_simp+
  have c: "(''Content-Type: application/json'' @ [CR, LF] @ ''X-Id: a: b'' @ [CR, LF] = []) = False"
    by simp
  show ?thesis
    by (simp only: parseHeaders_def option.case c if_False a) (simp add: b)
qed

lemma parseHeaders_missing:
  "parseHeaders None = Inr Map.empty" "parseHeaders (Some []) = Inr Map.empty"
  by (simp_all add: parseHeaders_def)

text \<open>
  Claim C4 at the inputs where the code departs from it. The block is trimmed before it is
  split into lines, so a last line \<^verbatim>\<open>X-Empty: \<close> of a header with an empty value
  loses the space of its separator: the line is not split, and the name recorded is
  \<^verbatim>\<open>x-empty:\<close>. The same line in front of another line is split at the separator.
\<close>

theorem parseHeaders_empty_last_value:
  "parseHeaders (Some (''X-Empty: '' @ [CR, LF])) = Inr [''x-empty:'' \<mapsto> []]
   \<and> parseHeaders (Some (''Content-Type: text/plain'' @ [CR, LF] @ ''X-Empty: '' @ [CR, LF]))
       = Inr [''content-type'' \<mapsto> ''text/plain'', ''x-empty:'' \<mapsto> []]
   \<and> parseHeaders (Some (''X-Empty: '' @ [CR, LF] @ ''X-Id: 7'' @ [CR, LF]))
       = Inr [''x-empty'' \<mapsto> [], ''x-id'' \<mapsto> ''7'']"
proof -
  have a: "splitLines (trim (''X-Empty: '' @ [CR, LF])) = [''X-Empty:'']"
    "splitLines (trim (''Content-Type: text/plain'' @ [CR, LF] @ ''X-Empty: '' @ [CR, LF]))
       = [''Content-Type: text/plain'', ''X-Empty:'']"
    "splitLines (trim (''X-Empty: '' @ [CR, LF] @ ''X-Id: 7'' @ [CR, LF]))
       = [''X-Empty: '', ''X-Id: 7'']"
    by code_simp+
  have b: "headerLine ''X-Empty:'' = Inr (''x-empty:'', [])"
    "headerLine ''X-Empty: '' = Inr (''x-empty'', [])"
    "headerLine ''Content-Type: text/plain'' = Inr (''content-type'', ''text/plain'')"
    "headerLine ''X-Id: 7'' = Inr (''x-id'', ''7'')"
    by code_simp+
  have c: "(''X-Empty: '' @ [CR, LF] = []) = False"
    "(''Content-Type: text/plain'' @ [CR, LF] @ ''X-Empty: '' @ [CR, LF] = []) = False"
    "(''X-Empty: '' @ [CR, LF] @ ''X-Id: 7'' @ [CR, LF] = []) = False"
    by simp_all
  show ?thesis
    by (simp only: parseHeaders_def option.case c if_False a) (simp add: b)
qed


section \<open>Properties of xhrRequest\<close>

lemma settle_fields [simp]:
  "xhr (settle v st) = xhr st" "listening (settle v st) = listening st"
  "lastIndex (settle v st) = lastIndex st" "delivered (settle v st) = delivered st"
  "swallowed (settle v st) = swallowed st" "calls (settle v st) = calls st"
  by (simp_all add: settle_def)

lemma settle_pending: "promise st = Pending \<Longrightarrow> promise (settle v st) = v"
  by (simp add: settle_def)

lemma settle_settled: "promise st \<noteq> Pending \<Longrightarrow> settle v st = st"
  by (simp add: settle_def)

lemma chunkStep_fields [simp]:
  "xhr (chunkStep opts st x) = xhr st" "listening (chunkStep opts st x) = listening st"
  "promise (chunkStep opts st x) = promise st" "calls (chunkStep opts st x) = calls st"
  by (simp_all add: chunkStep_def Let_def split: option.splits)

lemma chunkStep_other: "readyState x \<noteq> 3 \<Longrightarrow> chunkStep opts st x = st"
  by (simp add: chunkStep_def split: option.splits)

lemma notify_not_done:
  assumes "readyState x \<noteq> 4"
  shows "notify pf opts st (ReadyStateChange x) = (if listening st then chunkStep opts st x else st)"
  using assms by (simp add: notify_def onreadystatechange_def doneStep_def)

lemma notifyAll_not_done:
  assumes "\<forall>x \<in> set xs. readyState x \<noteq> 4"
  shows "promise (notifyAll pf opts st (map ReadyStateChange xs)) = promise st
     \<and> listening (notifyAll pf opts st (map ReadyStateChange xs)) = listening st
     \<and> xhr (notifyAll pf opts st (map ReadyStateChange xs)) = xhr st"
  using assms
proof (induction xs arbitrary: st)
  case Nil
  then show ?case by (simp add: notifyAll_def)
next
  case (Cons x xs)
  have "notifyAll pf opts st (map ReadyStateChange (x # xs))
      = notifyAll pf opts (notify pf opts st (ReadyStateChange x)) (map ReadyStateChange xs)"
    by (simp add: notifyAll_def)
  then show ?case using Cons by (simp add: notify_not_done)
qed

lemma xhrRequest_pending:
  assumes "promise (xhrRequest pf h opts) = Pending"
  shows "listening (xhrRequest pf h opts)" "xhr (xhrRequest pf h opts) = h"
    "lastIndex (xhrRequest pf h opts) = 0" "delivered (xhrRequest pf h opts) = []"
  using assms
  by (auto simp: xhrRequest_def Let_def split: prod.splits option.splits sum.splits)

lemma parsedBody_text:
  assumes "xhr_responseType x = [] \<or> xhr_responseType x = ''text''"
  shows "parsedBody pf opts x =
           Inr (if orDefault (responseType opts) ''json'' = ''json''
                then (case JSON_parse pf (if responseText x \<noteq> [] then responseText x else ''null'') of
                        Inr v \<Rightarrow> v
                      | Inl e \<Rightarrow> JStr (responseText x))
                else if truthy (response x) then response x
                else JStr (responseText x))"
  using assms by (auto simp: parsedBody_def getResponseText_def split: sum.splits)

lemma notify_done:
  assumes "listening st" "promise st = Pending" "readyState x = 4"
    "xhr_responseType x = [] \<or> xhr_responseType x = ''text''"
    "parseHeaders (allResponseHeaders x) = Inr hs"
  shows "promise (notify pf opts st (ReadyStateChange x)) =
           (if 200 \<le> status x \<and> status x < 300
            then Resolved (ResponseEnvelope (status x) hs
                   (if orDefault (responseType opts) ''json'' = ''json''
                    then (case JSON_parse pf (if responseText x \<noteq> [] then responseText x else ''null'') of
                            Inr v \<Rightarrow> v
                          | Inl e \<Rightarrow> JStr (responseText x))
                    else if truthy (response x) then response x
                    else JStr (responseText x))
                   (xhr st))
            else Rejected (FailureEnvelope (status x) (statusText x) (responseText x) hs))"
  using assms(1,2,3,5) assms(4)
  by (simp add: notify_def onreadystatechange_def doneStep_def chunkStep_other settle_pending
      parsedBody_text getResponseText_def)

lemma notify_done_failure_throws:
  assumes "listening st" "readyState x = 4"
    "xhr_responseType x \<noteq> []" "xhr_responseType x \<noteq> ''text''"
    "\<not> (200 \<le> status x \<and> status x < 300)"
  shows "onreadystatechange pf opts st x = Inl (JError ''InvalidStateError'')"
    and "notify pf opts st (ReadyStateChange x) = st"
proof -
  obtain hs where hs: "parseHeaders (allResponseHeaders x) = Inr hs"
    using parseHeaders_total by blast
  have "\<not> (200 \<le> status x \<and> status x < 300)" using assms(5) .
  then show "onreadystatechange pf opts st x = Inl (JError ''InvalidStateError'')"
    using assms(2,3,4) hs
    by (simp add: onreadystatechange_def doneStep_def chunkStep_other getResponseText_def
        del: de_Morgan_conj not_le not_less)
  then show "notify pf opts st (ReadyStateChange x) = st"
    using assms by (simp add: notify_def chunkStep_other)
qed

lemma notify_done_success_throws:
  assumes "listening st" "readyState x = 4"
    "xhr_responseType x \<noteq> []" "xhr_responseType x \<noteq> ''text''" "xhr_responseType x \<noteq> ''json''"
    "200 \<le> status x \<and> status x < 300"
    "orDefault (responseType opts) ''json'' = ''json'' \<or> \<not> truthy (response x)"
  shows "onreadystatechange pf opts st x = Inl (JError ''InvalidStateError'')"
    and "notify pf opts st (ReadyStateChange x) = st"
proof -
  obtain hs where hs: "parseHeaders (allResponseHeaders x) = Inr hs"
    using parseHeaders_total by blast
  have "parsedBody pf opts x = Inl (JError ''InvalidStateError'')"
    using assms by (auto simp: parsedBody_def getResponseText_def)
  then show "onreadystatechange pf opts st x = Inl (JError ''InvalidStateError'')"
    using assms hs
    by (simp add: onreadystatechange_def doneStep_def chunkStep_other)
  then show "notify pf opts st (ReadyStateChange x) = st"
    using assms by (simp add: notify_def chunkStep_other)
qed

lemma sample_pending: "promise (xhrRequest samplePlatform 1 sampleOptions) = Pending"
  by (simp add: xhrRequest_def samplePlatform_def sampleOptions_def setupCalls_def orDefault_def
      payloadOf_def)

lemma sample_pending_mode:
  "promise (xhrRequest samplePlatform 1 (sampleOptions\<lparr>responseType := Some rt\<rparr>)) = Pending"
  by (simp add: xhrRequest_def samplePlatform_def sampleOptions_def setupCalls_def orDefault_def
      payloadOf_def Let_def)

lemma sample_headers:
  "parseHeaders (Some (''Content-Type: text/plain'' @ [CR, LF])) = Inr [''content-type'' \<mapsto> ''text/plain'']"
proof -
  have a: "splitLines (trim (''Content-Type: text/plain'' @ [CR, LF])) = [''Content-Type: text/plain'']"
    by code_simp
  have b: "headerLine ''Content-Type: text/plain'' = Inr (''content-type'', ''text/plain'')"
    by code_simp
  have c: "(''Content-Type: text/plain'' @ [CR, LF] = []) = False" by simp
  show ?thesis
    by (simp only: parseHeaders_def option.case c if_False a) (simp add: b)
qed

subsection \<open>The terminal notification\<close>

text \<open>
  On a transport in a text mode the terminal notification settles a pending token as the
  description has it: after any notifications of ready states other than 4, the ready
  state 4 with a status from 200 to 299 resolves it with the status, the parsed headers
  (all names in lower case), the body and the transport handle, where the body is the
  value that \<^verbatim>\<open>JSON.parse\<close> makes of the text (of \<^verbatim>\<open>null\<close> for no text), or the raw
  text when the parsing throws, if the option asks for JSON, and otherwise the response
  of the transport, or the raw text when that is falsy; every other status rejects it
  with the envelope of the status, the status text, the raw text and the parsed headers.
\<close>

lemma done_in_text_mode:
  assumes "promise (xhrRequest pf h opts) = Pending"
    and "\<forall>x \<in> set xs. readyState x \<noteq> 4"
    and "readyState x = 4"
    and "xhr_responseType x = [] \<or> xhr_responseType x = ''text''"
  shows "\<exists>hs. parseHeaders (allResponseHeaders x) = Inr hs
            \<and> (\<forall>k \<in> dom hs. toLowerCase k = k)
            \<and> promise (notifyAll pf opts (xhrRequest pf h opts)
                         (map ReadyStateChange xs @ [ReadyStateChange x])) =
                (if 200 \<le> status x \<and> status x < 300
                 then Resolved (ResponseEnvelope (status x) hs
                        (if orDefault (responseType opts) ''json'' = ''json''
                         then (case JSON_parse pf (if responseText x \<noteq> [] then responseText x
                                                   else ''null'') of
                                 Inr v \<Rightarrow> v
                               | Inl e \<Rightarrow> JStr (responseText x))
                         else if truthy (response x) then response x
                         else JStr (responseText x))
                        h)
                 else Rejected (FailureEnvelope (status x) (statusText x) (responseText x) hs))"
proof -
  let ?st = "notifyAll pf opts (xhrRequest pf h opts) (map ReadyStateChange xs)"
  obtain hs where hs: "parseHeaders (allResponseHeaders x) = Inr hs"
    "\<forall>k \<in> dom hs. toLowerCase k = k"
    using parseHeaders_total by blast
  have st: "promise ?st = Pending" "listening ?st" "xhr ?st = h"
    using notifyAll_not_done[OF assms(2), of pf opts "xhrRequest pf h opts"]
      assms(1) xhrRequest_pending[OF assms(1)]
    by simp_all
  have "notifyAll pf opts (xhrRequest pf h opts) (map ReadyStateChange xs @ [ReadyStateChange x])
      = notify pf opts ?st (ReadyStateChange x)"
    by (simp add: notifyAll_def)
  then show ?thesis
    using notify_done[OF st(2) st(1) assms(3) assms(4) hs(1), of pf opts] hs st(3) by auto
qed

text \<open>
  Claim C3 at the inputs where the code departs from it. A request asks for the response
  type \<^verbatim>\<open>arraybuffer\<close>, and the transport reports the ready state 4 with the status
  404. The handler builds the failure envelope and reads the text for it; the getter
  throws, the exception leaves the handler, \<^verbatim>\<open>reject\<close> is never called and the
  completion token stays pending. The same notification on a transport in the mode
  \<^verbatim>\<open>text\<close> rejects the token with the envelope of the status 404. A successful
  response in the mode \<^verbatim>\<open>document\<close> whose document is \<^verbatim>\<open>null\<close> leaves the token
  pending in the same way.
\<close>

theorem done_binary_mode_unsettled:
  "promise (notifyAll samplePlatform (sampleOptions\<lparr>responseType := Some ''arraybuffer''\<rparr>)
      (xhrRequest samplePlatform 1 (sampleOptions\<lparr>responseType := Some ''arraybuffer''\<rparr>))
      [ReadyStateChange
         \<lparr>readyState = 4, status = 404, statusText = ''Not Found'', responseText = ''missing'',
          response = JObject 5, xhr_responseType = ''arraybuffer'',
          allResponseHeaders = Some (''Content-Type: text/plain'' @ [CR, LF])\<rparr>])
     = Pending
   \<and> onreadystatechange samplePlatform (sampleOptions\<lparr>responseType := Some ''arraybuffer''\<rparr>)
      (xhrRequest samplePlatform 1 (sampleOptions\<lparr>responseType := Some ''arraybuffer''\<rparr>))
      \<lparr>readyState = 4, status = 404, statusText = ''Not Found'', responseText = ''missing'',
       response = JObject 5, xhr_responseType = ''arraybuffer'',
       allResponseHeaders = Some (''Content-Type: text/plain'' @ [CR, LF])\<rparr>
     = Inl (JError ''InvalidStateError'')
   \<and> promise (notifyAll samplePlatform (sampleOptions\<lparr>responseType := Some ''text''\<rparr>)
      (xhrRequest samplePlatform 1 (sampleOptions\<lparr>responseType := Some ''text''\<rparr>))
      [ReadyStateChange
         \<lparr>readyState = 4, status = 404, statusText = ''Not Found'', responseText = ''missing'',
          response = JStr ''missing'', xhr_responseType = ''text'',
          allResponseHeaders = Some (''Content-Type: text/plain'' @ [CR, LF])\<rparr>])
     = Rejected (FailureEnvelope 404 ''Not Found'' ''missing'' [''content-type'' \<mapsto> ''text/plain''])
   \<and> promise (notifyAll samplePlatform (sampleOptions\<lparr>responseType := Some ''document''\<rparr>)
      (xhrRequest samplePlatform 1 (sampleOptions\<lparr>responseType := Some ''document''\<rparr>))
      [ReadyStateChange
         \<lparr>readyState = 4, status = 200, statusText = ''OK'', responseText = ''{}'',
          response = JNull, xhr_responseType = ''document'',
          allResponseHeaders = Some (''Content-Type: text/plain'' @ [CR, LF])\<rparr>])
     = Pending"
proof -
  let ?oa = "sampleOptions\<lparr>responseType := Some ''arraybuffer''\<rparr>"
  let ?ot = "sampleOptions\<lparr>responseType := Some ''text''\<rparr>"
  let ?od = "sampleOptions\<lparr>responseType := Some ''document''\<rparr>"
  let ?xa = "\<lparr>readyState = 4, status = 404, statusText = ''Not Found'', responseText = ''missing'',
          response = JObject 5, xhr_responseType = ''arraybuffer'',
          allResponseHeaders = Some (''Content-Type: text/plain'' @ [CR, LF])\<rparr>"
  let ?xt = "\<lparr>readyState = 4, status = 404, statusText = ''Not Found'', responseText = ''missing'',
          response = JStr ''missing'', xhr_responseType = ''text'',
          allResponseHeaders = Some (''Content-Type: text/plain'' @ [CR, LF])\<rparr>"
  let ?xd = "\<lparr>readyState = 4, status = 200, statusText = ''OK'', responseText = ''{}'',
          response = JNull, xhr_responseType = ''document'',
          allResponseHeaders = Some (''Content-Type: text/plain'' @ [CR, LF])\<rparr>"
  have l: "listening (xhrRequest samplePlatform 1 (sampleOptions\<lparr>responseType := Some rt\<rparr>))" for rt
    using sample_pending_mode by (rule xhrRequest_pending)
  have a1: "notify samplePlatform ?oa (xhrRequest samplePlatform 1 ?oa) (ReadyStateChange ?xa)
              = xhrRequest samplePlatform 1 ?oa"
    by (rule notify_done_failure_throws(2)[OF l]) simp_all
  have a2: "onreadystatechange samplePlatform ?oa (xhrRequest samplePlatform 1 ?oa) ?xa
              = Inl (JError ''InvalidStateError'')"
    by (rule notify_done_failure_throws(1)[OF l]) simp_all
  have ht: "parseHeaders (allResponseHeaders ?xt) = Inr [''content-type'' \<mapsto> ''text/plain'']"
    using sample_headers by (simp del: append.simps)
  have t: "promise (notify samplePlatform ?ot (xhrRequest samplePlatform 1 ?ot) (ReadyStateChange ?xt))
              = Rejected (FailureEnvelope 404 ''Not Found'' ''missing'' [''content-type'' \<mapsto> ''text/plain''])"
    using notify_done[OF l sample_pending_mode _ _ ht, of samplePlatform ?ot] by simp
  have d: "notify samplePlatform ?od (xhrRequest samplePlatform 1 ?od) (ReadyStateChange ?xd)
              = xhrRequest samplePlatform 1 ?od"
    by (rule notify_done_success_throws(2)[OF l]) simp_all
  show ?thesis
    unfolding notifyAll_def foldl.simps a1 d using a2 t sample_pending_mode by simp
qed

subsection \<open>The failure notifications of the transport\<close>

lemma failure_settled:
  assumes "promise st \<noteq> Pending"
  shows "notify pf opts st OnError = st" "notify pf opts st OnTimeout = st"
    "notify pf opts st OnAbort = st"
  using assms by (simp_all add: notify_def onerror_def ontimeout_def onabort_def settle_settled)

lemma failure_while_pending:
  assumes "listening st" and "promise st = Pending"
  shows "promise (notify pf opts st OnError) = Rejected (ErrorValue (JError ''Network error''))"
    and "promise (notify pf opts st OnTimeout) = Rejected (ErrorValue (JError ''Timeout''))"
    and "promise (notify pf opts st OnAbort) = Rejected (ErrorValue (JError ''Aborted''))"
  using assms by (simp_all add: notify_def onerror_def ontimeout_def onabort_def settle_pending)

text \<open>
  A transport reports a failure by the ready state 4 first and the failure event after
  it. In a text mode the completion step has settled the token by then, whatever the
  status, and the failure handler changes nothing.
\<close>

lemma failure_after_done:
  assumes "listening st" "promise st = Pending" "readyState x = 4"
    and "xhr_responseType x = [] \<or> xhr_responseType x = ''text''"
    and "ev = OnError \<or> ev = OnTimeout \<or> ev = OnAbort"
  shows "promise (notifyAll pf opts st [ReadyStateChange x, ev])
           = promise (notify pf opts st (ReadyStateChange x))"
    and "promise (notifyAll pf opts st [ReadyStateChange x, ev]) \<noteq> Rejected (ErrorValue e)"
proof -
  obtain hs where hs: "parseHeaders (allResponseHeaders x) = Inr hs"
    using parseHeaders_total by blast
  note d = notify_done[OF assms(1,2,3,4) hs, of pf opts]
  then have np: "promise (notify pf opts st (ReadyStateChange x)) \<noteq> Pending"
    by (simp split: if_splits)
  have "notifyAll pf opts st [ReadyStateChange x, ev] = notify pf opts st (ReadyStateChange x)"
    using failure_settled[OF np, of pf opts] assms(5) by (auto simp: notifyAll_def)
  then show "promise (notifyAll pf opts st [ReadyStateChange x, ev])
           = promise (notify pf opts st (ReadyStateChange x))"
    by simp
  then show "promise (notifyAll pf opts st [ReadyStateChange x, ev]) \<noteq> Rejected (ErrorValue e)"
    using d by (simp split: if_splits)
qed

text \<open>
  Claim C8 at the inputs where the code departs from it. A request with the default
  options fails in the network, by a timeout or by an abort: the transport reports the
  ready state 4 with the status 0 and then the failure. The completion step rejects the
  token with the failure envelope of the status 0; the rejection with the plain error
  that the failure handler makes comes second and has no effect. The three failures
  end in the same rejection. Only where the completion step throws, as it does for the
  response type \<^verbatim>\<open>arraybuffer\<close>, is the token still pending when the failure handler
  runs, and rejected with the plain error.
\<close>

theorem failure_envelope_preempts:
  "promise (notifyAll samplePlatform sampleOptions (xhrRequest samplePlatform 1 sampleOptions)
     [ReadyStateChange \<lparr>readyState = 4, status = 0, statusText = [], responseText = [],
        response = JStr [], xhr_responseType = [], allResponseHeaders = Some []\<rparr>,
      OnError])
   = Rejected (FailureEnvelope 0 [] [] Map.empty)
   \<and> promise (notifyAll samplePlatform sampleOptions (xhrRequest samplePlatform 1 sampleOptions)
     [ReadyStateChange \<lparr>readyState = 4, status = 0, statusText = [], responseText = [],
        response = JStr [], xhr_responseType = [], allResponseHeaders = Some []\<rparr>,
      OnTimeout])
   = Rejected (FailureEnvelope 0 [] [] Map.empty)
   \<and> promise (notifyAll samplePlatform sampleOptions (xhrRequest samplePlatform 1 sampleOptions)
     [ReadyStateChange \<lparr>readyState = 4, status = 0, statusText = [], responseText = [],
        response = JStr [], xhr_responseType = [], allResponseHeaders = Some []\<rparr>,
      OnAbort])
   = Rejected (FailureEnvelope 0 [] [] Map.empty)
   \<and> promise (notifyAll samplePlatform (sampleOptions\<lparr>responseType := Some ''arraybuffer''\<rparr>)
       (xhrRequest samplePlatform 1 (sampleOptions\<lparr>responseType := Some ''arraybuffer''\<rparr>))
     [ReadyStateChange \<lparr>readyState = 4, status = 0, statusText = [], responseText = [],
        response = JNull, xhr_responseType = ''arraybuffer'', allResponseHeaders = Some []\<rparr>,
      OnError])
   = Rejected (ErrorValue (JError ''Network error''))"
proof -
  let ?x = "\<lparr>readyState = 4, status = 0, statusText = [], responseText = [],
        response = JStr [], xhr_responseType = [], allResponseHeaders = Some []\<rparr>"
  let ?y = "\<lparr>readyState = 4, status = 0, statusText = [], responseText = [],
        response = JNull, xhr_responseType = ''arraybuffer'', allResponseHeaders = Some []\<rparr>"
  let ?r = "xhrRequest samplePlatform 1 sampleOptions"
  let ?oa = "sampleOptions\<lparr>responseType := Some ''arraybuffer''\<rparr>"
  have l: "listening ?r" using sample_pending by (rule xhrRequest_pending)
  have la: "listening (xhrRequest samplePlatform 1 ?oa)"
    using sample_pending_mode by (rule xhrRequest_pending)
  have ph: "parseHeaders (allResponseHeaders ?x) = Inr Map.empty"
    by (simp add: parseHeaders_def)
  have d: "promise (notify samplePlatform sampleOptions ?r (ReadyStateChange ?x))
             = Rejected (FailureEnvelope 0 [] [] Map.empty)"
    using notify_done[OF l sample_pending _ _ ph, of samplePlatform sampleOptions] by simp
  have f: "promise (notifyAll samplePlatform sampleOptions ?r [ReadyStateChange ?x, ev])
             = Rejected (FailureEnvelope 0 [] [] Map.empty)"
    if "ev = OnError \<or> ev = OnTimeout \<or> ev = OnAbort" for ev
    using failure_after_done(1)[OF l sample_pending _ _ that, of ?x samplePlatform sampleOptions] d
    by simp
  have a: "notify samplePlatform ?oa (xhrRequest samplePlatform 1 ?oa) (ReadyStateChange ?y)
              = xhrRequest samplePlatform 1 ?oa"
    by (rule notify_done_failure_throws(2)[OF la]) simp_all
  have b: "promise (notify samplePlatform ?oa (xhrRequest samplePlatform 1 ?oa) OnError)
              = Rejected (ErrorValue (JError ''Network error''))"
    using la sample_pending_mode by (rule failure_while_pending(1))
  have g: "promise (notifyAll samplePlatform ?oa (xhrRequest samplePlatform 1 ?oa)
              [ReadyStateChange ?y, OnError])
              = Rejected (ErrorValue (JError ''Network error''))"
    unfolding notifyAll_def foldl.simps a using b by simp
  show ?thesis using f[of OnError] f[of OnTimeout] f[of OnAbort] g by simp
qed

subsection \<open>Chunks\<close>




















subsection \<open>The payload\<close>

text \<open>
  Claim C5 at the inputs where the code departs from it. The content type is looked up
  under the two spellings \<^verbatim>\<open>Content-Type\<close> and \<^verbatim>\<open>content-type\<close> only: an object
  body under a header named \<^verbatim>\<open>Content-type\<close> or \<^verbatim>\<open>CONTENT-TYPE\<close> is handed to
  \<^verbatim>\<open>send\<close> as it is, while under the two spellings looked up it is serialized.
\<close>

theorem payload_key_spelling:
  "payloadOf samplePlatform [(''Content-type'', ''application/json'')] (JObject 1) = Inr (JObject 1)
   \<and> payloadOf samplePlatform [(''CONTENT-TYPE'', ''application/json'')] (JObject 1) = Inr (JObject 1)
   \<and> payloadOf samplePlatform [(''Content-Type'', ''application/json'')] (JObject 1) = Inr (JStr ''{}'')
   \<and> payloadOf samplePlatform [(''content-type'', ''application/json'')] (JObject 1) = Inr (JStr ''{}'')
   \<and> calls (xhrRequest samplePlatform 1
         (sampleOptions\<lparr>httpMethod := Some ''POST'',
            headers := Some [(''Content-type'', ''application/json'')], body := JObject 1\<rparr>))
       = [Open ''POST'' ''/api/products/123'' True, SetWithCredentials False, SetTimeout 30000,
          SetRequestHeader ''Content-type'' ''application/json'', Send (JObject 1)]"
proof -
  have a: "contentTypeOf [(''Content-type'', ''application/json'')] = []"
    "contentTypeOf [(''CONTENT-TYPE'', ''application/json'')] = []"
    by (simp_all add: contentTypeOf_def orDefault_def toLowerCase_def)
  have b: "contentTypeOf [(''Content-Type'', ''application/json'')] = ''application/json''"
    "contentTypeOf [(''content-type'', ''application/json'')] = ''application/json''"
    by code_simp+
  have c: "includes_str ''application/json'' ''application/json''" by code_simp
  have d: "\<not> includes_str [] ''application/json''" by simp
  show ?thesis
    by (simp add: payloadOf_def a b c d xhrRequest_def samplePlatform_def sampleOptions_def
        setupCalls_def orDefault_def)
qed

section \<open>Properties of the pool\<close>

declare XHRPool_next.simps [simp del]

lemma next_full: "concurrency p \<le> active p \<Longrightarrow> XHRPool_next p = p"
  by (subst XHRPool_next.simps) simp

lemma next_empty: "queue p = [] \<Longrightarrow> XHRPool_next p = p"
  by (subst XHRPool_next.simps) simp

lemma next_returns:
  "active p < concurrency p \<Longrightarrow> queue p = job # rest \<Longrightarrow> createTaskFn job = Returns h \<Longrightarrow>
   XHRPool_next p =
     p\<lparr>queue := rest, active := active p + 1,
       admitted := admitted p @ [(ticket job, active p)],
       running := running p @ [(ticket job, h)]\<rparr>"
  by (subst XHRPool_next.simps) simp

lemma next_throws:
  "active p < concurrency p \<Longrightarrow> queue p = job # rest \<Longrightarrow> createTaskFn job = Throws err \<Longrightarrow>
   XHRPool_next p =
     XHRPool_next
       (p\<lparr>queue := rest, active := active p,
          admitted := admitted p @ [(ticket job, active p)],
          settled := settled p @ [(ticket job, RejectWith err)]\<rparr>)"
  by (subst XHRPool_next.simps) simp

lemma next_induct [consumes 0, case_names full empty returns throws]:
  assumes "\<And>p. concurrency p \<le> active p \<Longrightarrow> P p"
    and "\<And>p. active p < concurrency p \<Longrightarrow> queue p = [] \<Longrightarrow> P p"
    and "\<And>p job rest h. active p < concurrency p \<Longrightarrow> queue p = job # rest \<Longrightarrow>
           createTaskFn job = Returns h \<Longrightarrow> P p"
    and "\<And>p job rest err. active p < concurrency p \<Longrightarrow> queue p = job # rest \<Longrightarrow>
           createTaskFn job = Throws err \<Longrightarrow>
           P (p\<lparr>queue := rest, active := active p,
                admitted := admitted p @ [(ticket job, active p)],
                settled := settled p @ [(ticket job, RejectWith err)]\<rparr>) \<Longrightarrow> P p"
  shows "P (p :: pool)"
proof (induction p rule: XHRPool_next.induct)
  case (1 p)
  show ?case
  proof (cases "concurrency p \<le> active p")
    case True
    then show ?thesis by (rule assms(1))
  next
    case False
    then have lt: "active p < concurrency p" by simp
    show ?thesis
    proof (cases "queue p")
      case Nil
      with lt show ?thesis by (rule assms(2))
    next
      case (Cons job rest)
      show ?thesis
      proof (cases "createTaskFn job")
        case (Returns h)
        with lt Cons show ?thesis by (rule assms(3))
      next
        case (Throws err)
        have "P (p\<lparr>queue := rest, active := active p + 1 - 1,
                admitted := admitted p @ [(ticket job, active p)],
                settled := settled p @ [(ticket job, RejectWith err)]\<rparr>)"
          using "1.IH"[OF False Cons Throws] .
        then show ?thesis using assms(4)[OF lt Cons Throws] by simp
      qed
    qed
  qed
qed

lemma next_concurrency: "concurrency (XHRPool_next p) = concurrency p"
  by (induction p rule: next_induct) (simp_all add: next_full next_empty next_returns next_throws)

lemma next_tickets: "tickets (XHRPool_next p) = tickets p"
  by (induction p rule: next_induct) (simp_all add: next_full next_empty next_returns next_throws)

lemma next_idle:
  "length (queue p) \<le> 1 \<or> concurrency p \<le> active p + 1 \<Longrightarrow> pool_idle (XHRPool_next p)"
proof (induction p rule: next_induct)
  case (returns p job rest h)
  then show ?case by (auto simp: next_returns pool_idle_def)
next
  case (throws p job rest err)
  then show ?case by (auto simp: next_throws)
qed (simp_all add: next_full next_empty pool_idle_def)

lemma upt_split_head:
  assumes "xs @ y # ys = [0..<n]"
  shows "y \<notin> set xs" "y \<notin> set ys"
proof -
  have "distinct (xs @ y # ys)" using assms by simp
  then show "y \<notin> set xs" "y \<notin> set ys" by auto
qed

lemma next_inv: "pool_inv p \<Longrightarrow> pool_inv (XHRPool_next p)"
proof (induction p rule: next_induct)
  case (full p)
  then show ?case by (simp add: next_full)
next
  case (empty p)
  then show ?case by (simp add: next_empty)
next
  case (returns p job rest h)
  have "map fst (admitted p) @ ticket job # map ticket rest = [0..<tickets p]"
    using returns by (simp add: pool_inv_def)
  then have "ticket job \<notin> set (map fst (admitted p))"
    by (rule upt_split_head)
  then have "ticket job \<notin> set (map fst (running p))"
    using returns.prems by (auto simp: pool_inv_def)
  then show ?case
    using returns by (auto simp: next_returns pool_inv_def)
next
  case (throws p job rest err)
  have "pool_inv (p\<lparr>queue := rest, active := active p,
                admitted := admitted p @ [(ticket job, active p)],
                settled := settled p @ [(ticket job, RejectWith err)]\<rparr>)"
    using throws.prems throws.hyps by (auto simp: pool_inv_def)
  then show ?case using throws by (simp add: next_throws)
qed

lemma next_bound: "active p \<le> max (concurrency p) 0 \<Longrightarrow> active (XHRPool_next p) \<le> max (concurrency p) 0"
proof (induction p rule: next_induct)
  case (returns p job rest h)
  then show ?case by (simp add: next_returns)
qed (simp_all add: next_full next_empty next_throws)

lemma filter_other_length:
  "distinct (map fst xs) \<Longrightarrow> map_of xs k = Some h \<Longrightarrow>
   int (length (filter (\<lambda>(t, _). t \<noteq> k) xs)) = int (length xs) - 1"
proof (induction xs)
  case Nil
  then show ?case by simp
next
  case (Cons x xs)
  obtain t v where x: "x = (t, v)" by (cases x)
  show ?case
  proof (cases "t = k")
    case True
    then have "k \<notin> fst ` set xs" using Cons.prems x by auto
    then have "filter (\<lambda>(t, _). t \<noteq> k) xs = xs"
      by (force simp: filter_id_conv)
    then show ?thesis using True x by simp
  next
    case False
    then show ?thesis using Cons x by simp
  qed
qed

lemma settle_inv:
  assumes "pool_inv p" "map_of (running p) k = Some h"
  shows "pool_inv (p\<lparr>active := active p - 1,
               running := filter (\<lambda>(t, _). t \<noteq> k) (running p),
               settled := ss\<rparr>)"
proof -
  have "int (length (filter (\<lambda>(t, _). t \<noteq> k) (running p))) = int (length (running p)) - 1"
    using assms by (intro filter_other_length) (simp_all add: pool_inv_def)
  moreover have "distinct (map fst (filter (\<lambda>(t, _). t \<noteq> k) (running p)))"
    using assms by (simp add: pool_inv_def distinct_map_filter)
  moreover have "set (map fst (filter (\<lambda>(t, _). t \<noteq> k) (running p))) \<subseteq> set (map fst (admitted p))"
    using assms by (auto simp: pool_inv_def)
  ultimately show ?thesis using assms by (simp add: pool_inv_def)
qed

lemma enqueue_inv: "pool_inv p \<Longrightarrow> pool_inv (enqueue p f)"
  unfolding enqueue_def by (rule next_inv) (simp add: pool_inv_def)

lemma step_inv: "pool_inv p \<Longrightarrow> pool_inv (pool_step p e)"
  by (cases e)
     (auto simp: enqueue_inv onFulfilled_def onRejected_def split: option.splits
           intro!: next_inv settle_inv)

lemma settle_idle:
  assumes "pool_idle p"
  shows "pool_idle (XHRPool_next (p\<lparr>active := active p - 1, running := rs, settled := ss\<rparr>))"
proof (rule next_idle)
  show "length (queue (p\<lparr>active := active p - 1, running := rs, settled := ss\<rparr>)) \<le> 1 \<or>
        concurrency (p\<lparr>active := active p - 1, running := rs, settled := ss\<rparr>)
          \<le> active (p\<lparr>active := active p - 1, running := rs, settled := ss\<rparr>) + 1"
    using assms by (cases "queue p") (simp_all add: pool_idle_def)
qed

lemma enqueue_idle:
  assumes "pool_idle p"
  shows "pool_idle (enqueue p f)"
  unfolding enqueue_def
proof (rule next_idle)
  let ?q = "p\<lparr>queue := queue p @ [\<lparr>ticket = tickets p, createTaskFn = f\<rparr>], tickets := tickets p + 1\<rparr>"
  show "length (queue ?q) \<le> 1 \<or> concurrency ?q \<le> active ?q + 1"
    using assms by (cases "queue p") (simp_all add: pool_idle_def)
qed

lemma step_idle: "pool_idle p \<Longrightarrow> pool_idle (pool_step p e)"
  by (cases e) (simp_all add: enqueue_idle onFulfilled_def onRejected_def settle_idle split: option.splits)

lemma step_bound: "active p \<le> max (concurrency p) 0 \<Longrightarrow>
  active (pool_step p e) \<le> max (concurrency (pool_step p e)) 0"
proof (cases e)
  case (Enqueue f)
  assume "active p \<le> max (concurrency p) 0"
  then show ?thesis unfolding Enqueue pool_step.simps enqueue_def
    using next_bound[of "p\<lparr>queue := queue p @ [\<lparr>ticket = tickets p, createTaskFn = f\<rparr>],
          tickets := tickets p + 1\<rparr>"]
    by (simp add: next_concurrency)
next
  case (TaskResolves k r)
  assume a: "active p \<le> max (concurrency p) 0"
  show ?thesis
  proof (cases "map_of (running p) k")
    case None
    then show ?thesis using a by (simp add: TaskResolves onFulfilled_def)
  next
    case (Some h)
    then show ?thesis
      using a next_bound[of "p\<lparr>active := active p - 1,
               running := filter (\<lambda>(t, _). t \<noteq> k) (running p),
               settled := settled p @ [(k, ResolveWith r h)]\<rparr>"]
      by (simp add: TaskResolves onFulfilled_def next_concurrency)
  qed
next
  case (TaskRejects k r)
  assume a: "active p \<le> max (concurrency p) 0"
  show ?thesis
  proof (cases "map_of (running p) k")
    case None
    then show ?thesis using a by (simp add: TaskRejects onRejected_def)
  next
    case (Some h)
    then show ?thesis
      using a next_bound[of "p\<lparr>active := active p - 1,
               running := filter (\<lambda>(t, _). t \<noteq> k) (running p),
               settled := settled p @ [(k, RejectWith r)]\<rparr>"]
      by (simp add: TaskRejects onRejected_def next_concurrency)
  qed
qed

lemma step_concurrency: "concurrency (pool_step p e) = concurrency p"
  by (cases e) (auto simp: enqueue_def onFulfilled_def onRejected_def next_concurrency split: option.splits)

lemma run_snoc: "pool_run p (evs @ [e]) = pool_step (pool_run p evs) e"
  by (simp add: pool_run_def)

lemma run_concurrency: "concurrency (pool_run p evs) = concurrency p"
  by (induction evs rule: rev_induct) (simp_all add: run_snoc step_concurrency, simp add: pool_run_def)

lemma run_inv: "pool_inv p \<Longrightarrow> pool_inv (pool_run p evs)"
  by (induction evs rule: rev_induct) (simp_all add: run_snoc step_inv, simp add: pool_run_def)

lemma run_idle: "pool_idle p \<Longrightarrow> pool_idle (pool_run p evs)"
  by (induction evs rule: rev_induct) (simp_all add: run_snoc step_idle, simp add: pool_run_def)

lemma run_bound: "active p \<le> max (concurrency p) 0 \<Longrightarrow>
  active (pool_run p evs) \<le> max (concurrency p) 0"
proof (induction evs rule: rev_induct)
  case Nil
  then show ?case by (simp add: pool_run_def)
next
  case (snoc e evs)
  then show ?case using step_bound[of "pool_run p evs" e]
    by (simp add: run_snoc step_concurrency run_concurrency)
qed

lemma new_inv: "pool_inv (XHRPool_new c)"
  by (simp add: pool_inv_def XHRPool_new_def)

lemma new_idle: "pool_idle (XHRPool_new c)"
  by (simp add: pool_idle_def XHRPool_new_def)

lemma run_new_facts:
  assumes "0 < N" and p: "p = pool_run (XHRPool_new (Some N)) evs"
  shows "pool_inv p" "pool_idle p" "active p \<le> N" "concurrency p = N"
proof -
  show "pool_inv p" unfolding p by (rule run_inv) (rule new_inv)
  show "pool_idle p" unfolding p by (rule run_idle) (rule new_idle)
  have "active p \<le> max (concurrency (XHRPool_new (Some N))) 0"
    unfolding p by (rule run_bound) (simp add: XHRPool_new_def)
  then show "active p \<le> N" using assms by (simp add: XHRPool_new_def)
  show "concurrency p = N" unfolding p by (simp add: run_concurrency XHRPool_new_def)
qed

subsection \<open>The bound on the running tasks\<close>

text \<open>
  Claim C1. A pool is constructed with a positive limit \<open>N\<close> and receives any sequence
  of submissions, task completions and task failures. Then its count of active tasks is
  never above \<open>N\<close> (nor below zero); every job that has left the queue left it at a
  dispatch attempt that read a count below \<open>N\<close>; and a dispatch attempt on any pool
  changes the queue only if the count is below the limit.
\<close>

theorem pool_active_bounded:
  assumes "0 < N"
  shows "active (pool_run (XHRPool_new (Some N)) evs) \<le> N
     \<and> 0 \<le> active (pool_run (XHRPool_new (Some N)) evs)
     \<and> (\<forall>(k, a) \<in> set (admitted (pool_run (XHRPool_new (Some N)) evs)). a < N)
     \<and> (\<forall>p. queue (XHRPool_next p) \<noteq> queue p \<longrightarrow> active p < concurrency p)"
proof -
  define p where "p = pool_run (XHRPool_new (Some N)) evs"
  note f = run_new_facts[OF assms p_def]
  have "0 \<le> active p" using f(1) by (simp add: pool_inv_def)
  moreover have "\<forall>(k, a) \<in> set (admitted p). a < N"
    using f(1) f(4) by (auto simp: pool_inv_def)
  moreover have "\<forall>q. queue (XHRPool_next q) \<noteq> queue q \<longrightarrow> active q < concurrency q"
  proof (intro allI impI)
    fix q :: pool
    assume "queue (XHRPool_next q) \<noteq> queue q"
    then have "\<not> concurrency q \<le> active q" using next_full[of q] by auto
    then show "active q < concurrency q" by simp
  qed
  ultimately show ?thesis using f(3) unfolding p_def by blast
qed

theorem pool_active_bounded_witness:
  "(0::int) < 2
   \<and> admitted (pool_run (XHRPool_new (Some 2))
        [Enqueue (Returns 7), Enqueue (Throws JNull), Enqueue (Returns 8), Enqueue (Returns 9),
         TaskResolves 0 (JNum 1)]) = [(0, 0), (1, 1), (2, 1), (3, 1)]
   \<and> active (pool_run (XHRPool_new (Some 2))
        [Enqueue (Returns 7), Enqueue (Throws JNull), Enqueue (Returns 8), Enqueue (Returns 9),
         TaskResolves 0 (JNum 1)]) \<le> 2"
proof -
  have h: "(0::int) < 2" by simp
  have a: "admitted (pool_run (XHRPool_new (Some 2))
        [Enqueue (Returns 7), Enqueue (Throws JNull), Enqueue (Returns 8), Enqueue (Returns 9),
         TaskResolves 0 (JNum 1)]) = [(0, 0), (1, 1), (2, 1), (3, 1)]"
    by code_simp
  have b: "active (pool_run (XHRPool_new (Some 2))
        [Enqueue (Returns 7), Enqueue (Throws JNull), Enqueue (Returns 8), Enqueue (Returns 9),
         TaskResolves 0 (JNum 1)]) \<le> 2"
    using pool_active_bounded[OF h] by (rule conjunct1)
  from h a b show ?thesis by (intro conjI)
qed


subsection \<open>Admission in the order of submission\<close>

lemma next_head:
  assumes "active q < concurrency q" "queue q = job # rest"
  shows "\<exists>more. admitted (XHRPool_next q) = admitted q @ (ticket job, active q) # more"
proof -
  have grow: "\<exists>more. admitted (XHRPool_next p) = admitted p @ more" for p
    by (induction p rule: next_induct)
       (auto simp: next_full next_empty next_returns next_throws)
  show ?thesis
  proof (cases "createTaskFn job")
    case (Returns h)
    then show ?thesis using assms by (simp add: next_returns)
  next
    case (Throws err)
    then show ?thesis
      using assms
        grow[of "q\<lparr>queue := rest, active := active q,
          admitted := admitted q @ [(ticket job, active q)],
          settled := settled q @ [(ticket job, RejectWith err)]\<rparr>"]
      by (auto simp: next_throws)
  qed
qed

lemma next_single:
  assumes "active q < concurrency q" "queue q = [job]"
  shows "admitted (XHRPool_next q) = admitted q @ [(ticket job, active q)]"
    and "queue (XHRPool_next q) = []"
  using assms by (cases "createTaskFn job"; simp add: next_returns next_throws next_empty)+

lemma inv_running_le_tickets:
  assumes "pool_inv p"
  shows "length (running p) \<le> tickets p"
proof -
  have "distinct (map fst (running p))" using assms by (simp add: pool_inv_def)
  then have "card (set (map fst (running p))) = length (map fst (running p))"
    by (rule distinct_card)
  then have "length (running p) = card (set (map fst (running p)))" by simp
  also have "\<dots> \<le> card (set (map fst (admitted p)))"
    using assms by (intro card_mono) (simp_all add: pool_inv_def)
  also have "\<dots> \<le> length (map fst (admitted p))" by (rule card_length)
  also have "\<dots> \<le> length (map fst (admitted p) @ map ticket (queue p))" by simp
  also have "\<dots> = tickets p" using assms by (simp add: pool_inv_def)
  finally show ?thesis .
qed

lemma enqueue_full:
  "concurrency p \<le> active p \<Longrightarrow>
   enqueue p f = p\<lparr>queue := queue p @ [\<lparr>ticket = tickets p, createTaskFn = f\<rparr>],
                  tickets := tickets p + 1\<rparr>"
  by (simp add: enqueue_def next_full)

lemma enqueues_full:
  "concurrency p \<le> active p \<Longrightarrow>
   admitted (pool_run p (map Enqueue fs)) = admitted p \<and>
   running (pool_run p (map Enqueue fs)) = running p \<and>
   map ticket (queue (pool_run p (map Enqueue fs)))
     = map ticket (queue p) @ [tickets p..<tickets p + length fs]"
proof (induction fs arbitrary: p)
  case Nil
  then show ?case by (simp add: pool_run_def)
next
  case (Cons f fs)
  let ?q = "p\<lparr>queue := queue p @ [\<lparr>ticket = tickets p, createTaskFn = f\<rparr>],
                  tickets := tickets p + 1\<rparr>"
  have step: "pool_run p (map Enqueue (f # fs)) = pool_run ?q (map Enqueue fs)"
    using Cons.prems by (simp add: pool_run_def enqueue_full)
  have "concurrency ?q \<le> active ?q" using Cons.prems by simp
  from Cons.IH[OF this]
  have ih: "admitted (pool_run ?q (map Enqueue fs)) = admitted p"
    "running (pool_run ?q (map Enqueue fs)) = running p"
    "map ticket (queue (pool_run ?q (map Enqueue fs)))
       = map ticket (queue p) @ tickets p # [Suc (tickets p)..<Suc (tickets p + length fs)]"
    by (simp_all del: upt_Suc)
  have "tickets p < Suc (tickets p + length fs)" by simp
  from upt_conv_Cons[OF this]
  have "[tickets p..<tickets p + length (f # fs)]
      = tickets p # [Suc (tickets p)..<Suc (tickets p + length fs)]"
    by (simp del: upt_Suc)
  then show ?case unfolding step using ih by (simp del: upt_Suc)
qed

text \<open>
  Claim C2. A pool with a positive limit \<open>N\<close> has received any sequence of events.
  The jobs whose factory has been called, followed by the jobs still queued, are the
  submissions in their order: factories are called in the order of submission. While
  fewer than \<open>N\<close> jobs have been submitted, a submission has its factory called at once.
  While \<open>N\<close> tasks are running, further submissions call no factory and line up behind
  the queue; the job at the head of the queue has its factory called when the promise of
  a running task is fulfilled or rejected.
\<close>

theorem pool_fifo_admission:
  assumes "0 < N" and p: "p = pool_run (XHRPool_new (Some N)) evs"
  shows "invoked p @ map ticket (queue p) = [0..<tickets p]
     \<and> (int (tickets p) < N \<longrightarrow> invoked (enqueue p f) = invoked p @ [tickets p])
     \<and> (N \<le> active p \<longrightarrow>
          invoked (pool_run p (map Enqueue fs)) = invoked p
          \<and> map ticket (queue (pool_run p (map Enqueue fs)))
              = map ticket (queue p) @ [tickets p..<tickets p + length fs])
     \<and> (\<forall>job rest k h v. queue p = job # rest \<and> map_of (running p) k = Some h \<longrightarrow>
          ticket job \<in> set (invoked (pool_step p (TaskResolves k v)))
          \<and> ticket job \<in> set (invoked (pool_step p (TaskRejects k v))))"
proof -
  note f = run_new_facts[OF assms]
  have fifo: "invoked p @ map ticket (queue p) = [0..<tickets p]"
    using f(1) by (simp add: pool_inv_def invoked_def)
  have first: "invoked (enqueue p f) = invoked p @ [tickets p]" if "int (tickets p) < N"
  proof -
    have "active p \<le> int (tickets p)"
      using f(1) inv_running_le_tickets[OF f(1)] by (simp add: pool_inv_def)
    then have lt: "active p < concurrency p" using that f(4) by simp
    then have "queue p = []" using f(2) by (auto simp: pool_idle_def)
    then show ?thesis
      using lt unfolding enqueue_def invoked_def
      by (subst next_single(1)[where job = "\<lparr>ticket = tickets p, createTaskFn = f\<rparr>"]) simp_all
  qed
  have later: "invoked (pool_run p (map Enqueue fs)) = invoked p
          \<and> map ticket (queue (pool_run p (map Enqueue fs)))
              = map ticket (queue p) @ [tickets p..<tickets p + length fs]" if "N \<le> active p"
    using enqueues_full[of p fs] that f(4) by (simp add: invoked_def)
  have freed: "ticket job \<in> set (invoked (pool_step p (TaskResolves k v)))
          \<and> ticket job \<in> set (invoked (pool_step p (TaskRejects k v)))"
    if q: "queue p = job # rest" and r: "map_of (running p) k = Some h" for job rest k h v
  proof -
    have "concurrency p \<le> active p" using f(2) q by (simp add: pool_idle_def)
    then have a: "active p - 1 < concurrency p" using f(3) f(4) by simp
    have inq: "ticket job \<in> set (map fst (admitted
             (XHRPool_next (p\<lparr>active := active p - 1, running := rs, settled := ss\<rparr>))))" for rs ss
    proof -
      obtain more where
        "admitted (XHRPool_next (p\<lparr>active := active p - 1, running := rs, settled := ss\<rparr>))
           = admitted p @ (ticket job, active p - 1) # more"
        using next_head[of "p\<lparr>active := active p - 1, running := rs, settled := ss\<rparr>" job rest] a q
        by auto
      then show ?thesis by simp
    qed
    show ?thesis
      using r inq by (simp add: onFulfilled_def onRejected_def invoked_def)
  qed
  show ?thesis using fifo first later freed by blast
qed


theorem pool_fifo_admission_witness:
  "(0::int) < 2
   \<and> int (tickets (pool_run (XHRPool_new (Some 2)) [Enqueue (Returns 7)])) < 2
   \<and> invoked (enqueue (pool_run (XHRPool_new (Some 2)) [Enqueue (Returns 7)]) (Returns 8)) = [0, 1]
   \<and> 2 \<le> active (pool_run (XHRPool_new (Some 2)) [Enqueue (Returns 7), Enqueue (Returns 8)])
   \<and> invoked (pool_run (pool_run (XHRPool_new (Some 2)) [Enqueue (Returns 7), Enqueue (Returns 8)])
        (map Enqueue [Returns 9])) = [0, 1]
   \<and> 2 \<in> set (invoked (pool_step
        (pool_run (XHRPool_new (Some 2)) [Enqueue (Returns 7), Enqueue (Returns 8), Enqueue (Returns 9)])
        (TaskRejects 1 JNull)))"
proof -
  have h: "(0::int) < 2" by simp
  let ?p1 = "pool_run (XHRPool_new (Some 2)) [Enqueue (Returns 7)]"
  let ?p2 = "pool_run (XHRPool_new (Some 2)) [Enqueue (Returns 7), Enqueue (Returns 8)]"
  let ?p3 = "pool_run (XHRPool_new (Some 2)) [Enqueue (Returns 7), Enqueue (Returns 8), Enqueue (Returns 9)]"
  have t1: "int (tickets ?p1) < 2" by code_simp
  have i1: "invoked ?p1 @ [tickets ?p1] = [0, 1]" by code_simp
  have a2: "2 \<le> active ?p2" by code_simp
  have i2: "invoked ?p2 = [0, 1]" by code_simp
  have q3: "queue ?p3 = \<lparr>ticket = 2, createTaskFn = Returns 9\<rparr> # []
            \<and> map_of (running ?p3) 1 = Some 8" by code_simp
  have "invoked (enqueue ?p1 (Returns 8)) = [0, 1]"
    using pool_fifo_admission[OF h refl, of "[Enqueue (Returns 7)]" "Returns 8"] t1 i1 by simp
  moreover have "invoked (pool_run ?p2 (map Enqueue [Returns 9])) = [0, 1]"
    using pool_fifo_admission[OF h refl, of "[Enqueue (Returns 7), Enqueue (Returns 8)]" _ "[Returns 9]"]
      a2 i2 by simp
  moreover have "2 \<in> set (invoked (pool_step ?p3 (TaskRejects 1 JNull)))"
    using pool_fifo_admission[OF h refl, of "[Enqueue (Returns 7), Enqueue (Returns 8), Enqueue (Returns 9)]"]
      q3 by fastforce
  ultimately show ?thesis using h t1 a2 by (intro conjI)
qed

subsection \<open>A factory that throws\<close>

lemma next_settled:
  "\<exists>more. settled (XHRPool_next p) = settled p @ more
     \<and> set more \<subseteq> {(ticket j, RejectWith e) | j e. j \<in> set (queue p) \<and> createTaskFn j = Throws e}"
proof (induction p rule: next_induct)
  case (throws p job rest err)
  then obtain more where
    m: "settled (XHRPool_next p) = settled p @ (ticket job, RejectWith err) # more"
       "set more \<subseteq> {(ticket j, RejectWith e) | j e. j \<in> set rest \<and> createTaskFn j = Throws e}"
    by (auto simp: next_throws)
  have "(ticket job, RejectWith err)
      \<in> {(ticket j, RejectWith e) | j e. j \<in> set (queue p) \<and> createTaskFn j = Throws e}"
    using throws.hyps by force
  moreover have "{(ticket j, RejectWith e) | j e. j \<in> set rest \<and> createTaskFn j = Throws e}
      \<subseteq> {(ticket j, RejectWith e) | j e. j \<in> set (queue p) \<and> createTaskFn j = Throws e}"
    using throws.hyps by auto
  ultimately have "set ((ticket job, RejectWith err) # more)
      \<subseteq> {(ticket j, RejectWith e) | j e. j \<in> set (queue p) \<and> createTaskFn j = Throws e}"
    using m(2) by simp
  then show ?case using m(1) by blast
qed (simp_all add: next_full next_empty next_returns)

lemma next_running:
  "\<exists>more. running (XHRPool_next p) = running p @ more"
  by (induction p rule: next_induct) (auto simp: next_full next_empty next_returns next_throws)

text \<open>
  Claim C9. A dispatch attempt finds a free slot and, at the head of the queue, a job
  whose factory throws. Then the count of active tasks is back at its value (increased,
  then decreased), the completion token of that submission is rejected with the thrown
  value, and the dispatch goes on with the rest of the queue: the attempt equals an
  attempt on the pool without the job, with its admission and its rejection logged. No
  other token is settled but those of later queued jobs whose own factories throw, the
  running tasks stay, and a next job whose factory returns is admitted.
\<close>

theorem pool_factory_throws:
  assumes "active p < concurrency p" and "queue p = job # rest" and "createTaskFn job = Throws err"
  shows "XHRPool_next p =
           XHRPool_next (p\<lparr>queue := rest, active := active p + 1 - 1,
                          admitted := admitted p @ [(ticket job, active p)],
                          settled := settled p @ [(ticket job, RejectWith err)]\<rparr>)
     \<and> (\<exists>more. settled (XHRPool_next p) = settled p @ (ticket job, RejectWith err) # more
           \<and> set more \<subseteq> {(ticket j, RejectWith e) | j e. j \<in> set rest \<and> createTaskFn j = Throws e})
     \<and> (\<exists>more. running (XHRPool_next p) = running p @ more)
     \<and> (\<forall>job2 rest2 h. rest = job2 # rest2 \<and> createTaskFn job2 = Returns h \<longrightarrow>
           XHRPool_next p =
             p\<lparr>queue := rest2, active := active p + 1,
               admitted := admitted p @ [(ticket job, active p), (ticket job2, active p)],
               running := running p @ [(ticket job2, h)],
               settled := settled p @ [(ticket job, RejectWith err)]\<rparr>)"
proof -
  let ?q = "p\<lparr>queue := rest, active := active p,
              admitted := admitted p @ [(ticket job, active p)],
              settled := settled p @ [(ticket job, RejectWith err)]\<rparr>"
  have eq: "XHRPool_next p = XHRPool_next ?q"
    using assms by (rule next_throws)
  have s: "\<exists>more. settled (XHRPool_next p) = settled p @ (ticket job, RejectWith err) # more
           \<and> set more \<subseteq> {(ticket j, RejectWith e) | j e. j \<in> set rest \<and> createTaskFn j = Throws e}"
    using next_settled[of ?q] unfolding eq by simp
  have r: "\<exists>more. running (XHRPool_next p) = running p @ more"
    by (rule next_running)
  have n: "XHRPool_next p =
             p\<lparr>queue := rest2, active := active p + 1,
               admitted := admitted p @ [(ticket job, active p), (ticket job2, active p)],
               running := running p @ [(ticket job2, h)],
               settled := settled p @ [(ticket job, RejectWith err)]\<rparr>"
    if "rest = job2 # rest2" "createTaskFn job2 = Returns h" for job2 rest2 h
    unfolding eq using that assms(1) by (subst next_returns[where job = job2 and rest = rest2 and h = h]) simp_all
  show ?thesis using eq s r n by simp
qed

theorem pool_factory_throws_witness:
  "XHRPool_next \<lparr>concurrency = 2, active = 1,
       queue = [\<lparr>ticket = 1, createTaskFn = Throws (JError ''boom'')\<rparr>,
                \<lparr>ticket = 2, createTaskFn = Returns 8\<rparr>],
       running = [(0, 7)], tickets = 3, admitted = [(0, 0)], settled = []\<rparr>
   = \<lparr>concurrency = 2, active = 2, queue = [],
       running = [(0, 7), (2, 8)], tickets = 3, admitted = [(0, 0), (1, 1), (2, 1)],
       settled = [(1, RejectWith (JError ''boom''))]\<rparr>"
proof -
  let ?p = "\<lparr>concurrency = 2, active = 1,
       queue = [\<lparr>ticket = 1, createTaskFn = Throws (JError ''boom'')\<rparr>,
                \<lparr>ticket = 2, createTaskFn = Returns 8\<rparr>],
       running = [(0, 7)], tickets = 3, admitted = [(0, 0)], settled = []\<rparr>"
  have "active ?p < concurrency ?p" by simp
  moreover have "queue ?p = \<lparr>ticket = 1, createTaskFn = Throws (JError ''boom'')\<rparr>
                   # [\<lparr>ticket = 2, createTaskFn = Returns 8\<rparr>]" by simp
  moreover have "createTaskFn \<lparr>ticket = 1, createTaskFn = Throws (JError ''boom'')\<rparr>
                   = Throws (JError ''boom'')" by simp
  ultimately have "\<forall>job2 rest2 h.
      [\<lparr>ticket = 2, createTaskFn = Returns 8\<rparr>] = job2 # rest2 \<and> createTaskFn job2 = Returns h \<longrightarrow>
      XHRPool_next ?p =
        ?p\<lparr>queue := rest2, active := active ?p + 1,
           admitted := admitted ?p @ [(ticket \<lparr>ticket = 1, createTaskFn = Throws (JError ''boom'')\<rparr>, active ?p),
                                     (ticket job2, active ?p)],
           running := running ?p @ [(ticket job2, h)],
           settled := settled ?p @ [(ticket \<lparr>ticket = 1, createTaskFn = Throws (JError ''boom'')\<rparr>,
                                     RejectWith (JError ''boom''))]\<rparr>"
    by (rule pool_factory_throws[THEN conjunct2, THEN conjunct2, THEN conjunct2])
  from this[rule_format, of "\<lparr>ticket = 2, createTaskFn = Returns 8\<rparr>" "[]" 8]
  show ?thesis by simp
qed

subsection \<open>A limit that is not positive\<close>

lemma submitted_snoc:
  "submitted (evs @ [e]) = submitted evs @ (case e of Enqueue f \<Rightarrow> [f] | _ \<Rightarrow> [])"
  by (induction evs rule: submitted.induct) (auto split: pool_event.splits)

lemma run_nonpositive:
  assumes "N \<le> 0"
  shows "concurrency (pool_run (XHRPool_new (Some N)) evs) = N
     \<and> active (pool_run (XHRPool_new (Some N)) evs) = 0
     \<and> admitted (pool_run (XHRPool_new (Some N)) evs) = []
     \<and> settled (pool_run (XHRPool_new (Some N)) evs) = []
     \<and> running (pool_run (XHRPool_new (Some N)) evs) = []
     \<and> map createTaskFn (queue (pool_run (XHRPool_new (Some N)) evs)) = submitted evs"
proof (induction evs rule: rev_induct)
  case Nil
  then show ?case by (simp add: pool_run_def XHRPool_new_def)
next
  case (snoc e evs)
  show ?case
  proof (cases e)
    case (Enqueue f)
    then show ?thesis
      using snoc assms by (simp add: run_snoc submitted_snoc enqueue_def next_full)
  next
    case (TaskResolves k v)
    then show ?thesis using snoc by (simp add: run_snoc submitted_snoc onFulfilled_def)
  next
    case (TaskRejects k v)
    then show ?thesis using snoc by (simp add: run_snoc submitted_snoc onRejected_def)
  qed
qed

text \<open>
  Claim C10. The constructor takes a limit \<open>N \<le> 0\<close> as it is. Whatever events follow,
  the count of active tasks stays 0, no factory is ever called, no completion token is
  ever settled, every submission stays in the queue, and a dispatch attempt changes
  nothing.
\<close>

theorem pool_nonpositive_limit:
  assumes "N \<le> 0"
  shows "concurrency (XHRPool_new (Some N)) = N
     \<and> active (pool_run (XHRPool_new (Some N)) evs) = 0
     \<and> invoked (pool_run (XHRPool_new (Some N)) evs) = []
     \<and> settled (pool_run (XHRPool_new (Some N)) evs) = []
     \<and> running (pool_run (XHRPool_new (Some N)) evs) = []
     \<and> map createTaskFn (queue (pool_run (XHRPool_new (Some N)) evs)) = submitted evs
     \<and> XHRPool_next (pool_run (XHRPool_new (Some N)) evs) = pool_run (XHRPool_new (Some N)) evs"
proof -
  note r = run_nonpositive[OF assms, of evs]
  have "concurrency (XHRPool_new (Some N)) = N" by (simp add: XHRPool_new_def)
  moreover have "XHRPool_next (pool_run (XHRPool_new (Some N)) evs) = pool_run (XHRPool_new (Some N)) evs"
    using r assms by (intro next_full) simp
  ultimately show ?thesis using r by (simp add: invoked_def)
qed

theorem pool_nonpositive_limit_witness:
  "(0::int) \<le> 0
   \<and> invoked (pool_run (XHRPool_new (Some 0)) [Enqueue (Returns 7), Enqueue (Throws JNull),
        TaskResolves 0 JNull]) = []
   \<and> settled (pool_run (XHRPool_new (Some 0)) [Enqueue (Returns 7), Enqueue (Throws JNull),
        TaskResolves 0 JNull]) = []
   \<and> map createTaskFn (queue (pool_run (XHRPool_new (Some 0)) [Enqueue (Returns 7),
        Enqueue (Throws JNull), TaskResolves 0 JNull])) = [Returns 7, Throws JNull]"
proof -
  have h: "(0::int) \<le> 0" by simp
  have s: "submitted [Enqueue (Returns 7), Enqueue (Throws JNull), TaskResolves 0 JNull]
             = [Returns 7, Throws JNull]" by simp
  show ?thesis
    using pool_nonpositive_limit[OF h, of "[Enqueue (Returns 7), Enqueue (Throws JNull),
        TaskResolves 0 JNull]"] s
    by simp
qed


end
